theory Spec2Isabelle
  imports Main
begin

section \<open>Python string primitives used by \<open>zos_mount.py\<close>\<close>

text \<open>
  Strings are lists of 8-bit characters; the model covers text in the ASCII / Latin-1 range.
  \<open>is_space\<close> is the set of code points below 256 for which Python's \<open>str.isspace\<close> holds
  (the same set the regular-expression class \<open>\s\<close> matches in a \<open>str\<close> pattern).
\<close>

definition space_chars :: "char list" where
  "space_chars = [CHR 0x09, CHR 0x0A, CHR 0x0B, CHR 0x0C, CHR 0x0D,
                  CHR 0x1C, CHR 0x1D, CHR 0x1E, CHR 0x1F, CHR 0x20, CHR 0x85, CHR 0xA0]"

definition is_space :: "char \<Rightarrow> bool" where
  "is_space c = (c \<in> set space_chars)"


text \<open>\<open>str.upper()\<close> on ASCII text: only the letters a..z change.\<close>

definition upper_char :: "char \<Rightarrow> char" where
  "upper_char c =
     (case map_of (zip ''abcdefghijklmnopqrstuvwxyz'' ''ABCDEFGHIJKLMNOPQRSTUVWXYZ'') c of
        None \<Rightarrow> c
      | Some u \<Rightarrow> u)"

definition upper :: "string \<Rightarrow> string" where
  "upper s = map upper_char s"

text \<open>\<open>"\n".join(lines)\<close> and \<open>text.split("\n")\<close>.\<close>

fun join_nl :: "string list \<Rightarrow> string" where
  "join_nl [] = []"
| "join_nl [l] = l"
| "join_nl (l # l' # ls) = l @ CHR 0x0A # join_nl (l' # ls)"

fun split_nl :: "string \<Rightarrow> string list" where
  "split_nl [] = [[]]"
| "split_nl (c # cs) =
     (if c = CHR 0x0A then [] # split_nl cs
      else (case split_nl cs of [] \<Rightarrow> [[c]] | l # ls \<Rightarrow> (c # l) # ls))"

text \<open>
  \<open>str.splitlines()\<close>: the line boundaries below 256 are LF, VT, FF, CR, FS, GS, RS and NEL;
  CR LF counts as one boundary; a boundary at the very end does not open a further line.
\<close>

definition line_breaks :: "char list" where
  "line_breaks = [CHR 0x0A, CHR 0x0B, CHR 0x0C, CHR 0x0D, CHR 0x1C, CHR 0x1D, CHR 0x1E, CHR 0x85]"

definition is_break :: "char \<Rightarrow> bool" where
  "is_break c = (c \<in> set line_breaks)"

fun splitlines_from :: "string \<Rightarrow> string \<Rightarrow> string list" where
  "splitlines_from cur [] = (if cur = [] then [] else [rev cur])"
| "splitlines_from cur (c # cs) =
     (if c = CHR 0x0D then
        (case cs of
           [] \<Rightarrow> [rev cur]
         | d # ds \<Rightarrow> if d = CHR 0x0A then rev cur # splitlines_from [] ds
                     else rev cur # splitlines_from [] (d # ds))
      else if is_break c then rev cur # splitlines_from [] cs
      else splitlines_from (c # cur) cs)"

definition splitlines :: "string \<Rightarrow> string list" where
  "splitlines s = splitlines_from [] s"

section \<open>The compiled pattern \<open>ms\<close> of \<open>swap_text\<close>\<close>

text \<open>
  \<open>swap_text\<close> compiles
  \<^verbatim>\<open>r"^\s*MOUNT\s+FILESYSTEM\(\s*'" + removing.upper() + r"'\s*\)"\<close>
  and tests every line with \<open>ms.match(line) is not None\<close>.  No flag is passed to
  \<open>re.compile\<close>.  The identifier is spliced into the pattern unescaped, so its characters
  are pattern syntax: an ordinary character matches itself, \<open>.\<close> matches any character but
  a newline, \<open>$\<close> matches at the end of the line (or before a final newline).  Identifiers
  with any other regular-expression operator, or with non-ASCII characters, are outside
  the modelled fragment and \<open>re_ident\<close> returns \<open>None\<close> for them.
\<close>

datatype re_item =
    Lit char
  | AnyChar
  | EndOfLine
  | SpaceStar
  | SpacePlus

definition re_special :: "char list" where
  "re_special = CHR 0x5C # ''^*+?{}[]|()''"

fun re_ident_char :: "char \<Rightarrow> re_item option" where
  "re_ident_char c =
     (if c = CHR ''.'' then Some AnyChar
      else if c = CHR ''$'' then Some EndOfLine
      else if c \<in> set re_special \<or> 128 \<le> (of_char c :: nat) then None
      else Some (Lit c))"

fun re_ident :: "string \<Rightarrow> re_item list option" where
  "re_ident [] = Some []"
| "re_ident (c # cs) =
     (case re_ident_char c of
        None \<Rightarrow> None
      | Some i \<Rightarrow> (case re_ident cs of None \<Rightarrow> None | Some is \<Rightarrow> Some (i # is)))"

definition re_compile_ms :: "string \<Rightarrow> re_item list option" where
  "re_compile_ms removing =
     (case re_ident (upper removing) of
        None \<Rightarrow> None
      | Some idp \<Rightarrow>
          Some ([SpaceStar] @ map Lit ''MOUNT'' @ [SpacePlus] @ map Lit ''FILESYSTEM('' @
                [SpaceStar, Lit (CHR 0x27)] @ idp @ [Lit (CHR 0x27), SpaceStar, Lit (CHR '')'')]))"

text \<open>
  \<open>re_match p s\<close>: some prefix of \<open>s\<close> matches the whole of \<open>p\<close>, which is what
  \<open>pattern.match(s) is not None\<close> decides for a pattern anchored with \<open>^\<close>.
\<close>

fun re_match :: "re_item list \<Rightarrow> string \<Rightarrow> bool" where
  "re_match [] s = True"
| "re_match (Lit c # p) s = (case s of [] \<Rightarrow> False | x # xs \<Rightarrow> x = c \<and> re_match p xs)"
| "re_match (AnyChar # p) s = (case s of [] \<Rightarrow> False | x # xs \<Rightarrow> x \<noteq> CHR 0x0A \<and> re_match p xs)"
| "re_match (EndOfLine # p) s = ((s = [] \<or> s = [CHR 0x0A]) \<and> re_match p s)"
| "re_match (SpaceStar # p) s =
     (re_match p s \<or> (case s of [] \<Rightarrow> False | x # xs \<Rightarrow> is_space x \<and> re_match (SpaceStar # p) xs))"
| "re_match (SpacePlus # p) s =
     (case s of [] \<Rightarrow> False | x # xs \<Rightarrow> is_space x \<and> re_match (SpaceStar # p) xs)"

section \<open>\<open>swap_text\<close>: the persistent-block editor\<close>

text \<open>
  The dictionary \<open>boneyard\<close> maps a start index to an end index.  Python dictionaries keep
  insertion order, and assigning to a key that is present keeps the key's place; the loop
  \<open>for startidx in reversed(boneyard.keys())\<close> depends on that order, so the dictionary is
  an association list (the semantics of Python 3.8 and later, where a view of the keys can
  be reversed).  The call \<open>print(ms)\<close> only writes to standard output and is left out.
\<close>

fun dict_set :: "(nat \<times> nat) list \<Rightarrow> nat \<Rightarrow> nat \<Rightarrow> (nat \<times> nat) list" where
  "dict_set [] k v = [(k, v)]"
| "dict_set ((k', v') # d) k v =
     (if k' = k then (k, v) # d else (k', v') # dict_set d k v)"

text \<open>
  The backward walk \<open>for tmpindex in range(index - 1, 0, -1)\<close>: \<open>back_walk ls dflt t\<close> visits
  \<open>t, t - 1, \<dots>, 1\<close> and returns the index at which the loop breaks, or \<open>dflt\<close> (the value
  \<open>remove_starting_at_index\<close> had before the loop) when the range is exhausted.
\<close>

fun back_walk :: "string list \<Rightarrow> nat \<Rightarrow> nat \<Rightarrow> nat" where
  "back_walk ls dflt 0 = dflt"
| "back_walk ls dflt (Suc t) =
     (let tmpline = ls ! Suc t in
      if length tmpline > 0 then
        (if take 2 tmpline \<noteq> ''/*'' \<or> take 6 tmpline = ''/* BEG'' then Suc t
         else back_walk ls dflt t)
      else Suc t)"

definition back_scan :: "string list \<Rightarrow> nat \<Rightarrow> nat" where
  "back_scan ls index = (if index > 0 then back_walk ls index (index - 1) else index)"

text \<open>The flag \<open>doit\<close> computed for a line met while a span is open.\<close>

definition doit :: "string \<Rightarrow> bool" where
  "doit line =
     (if length line > 0 then
        (if hd line \<noteq> CHR '' '' \<and> hd line \<noteq> CHR 0x09 \<and> take 2 line \<noteq> ''/*'' then True
         else if take 6 line = ''/* END'' then True
         else False)
      else True)"

record scan_state =
  remove_starting_at_index :: "nat option"
  remove_ending_at_index :: "nat option"
  boneyard :: "(nat \<times> nat) list"

definition scan_init :: scan_state where
  "scan_init = \<lparr>remove_starting_at_index = None, remove_ending_at_index = None, boneyard = []\<rparr>"

text \<open>One iteration of \<open>for index, line in enumerate(content_lines)\<close>.\<close>

definition scan_step :: "(string \<Rightarrow> bool) \<Rightarrow> string list \<Rightarrow> scan_state \<Rightarrow> nat \<Rightarrow> scan_state" where
  "scan_step ms ls st index =
     (let line = ls ! index in
      if remove_starting_at_index st = None \<and> ms line then
        st\<lparr>remove_starting_at_index := Some (back_scan ls index),
           remove_ending_at_index := Some index\<rparr>
      else
        (case remove_starting_at_index st of
           None \<Rightarrow> st
         | Some s \<Rightarrow>
             if doit line then
               st\<lparr>remove_starting_at_index := None, remove_ending_at_index := None,
                  boneyard := dict_set (boneyard st) s index\<rparr>
             else st\<lparr>remove_ending_at_index := Some index\<rparr>))"

definition scan_loop :: "(string \<Rightarrow> bool) \<Rightarrow> string list \<Rightarrow> scan_state" where
  "scan_loop ms ls = foldl (scan_step ms ls) scan_init [0..<length ls]"

text \<open>The statement after the loop: a span still open is recorded unless start and end coincide.\<close>

definition scan_finish :: "scan_state \<Rightarrow> (nat \<times> nat) list" where
  "scan_finish st =
     (case remove_starting_at_index st of
        None \<Rightarrow> boneyard st
      | Some s \<Rightarrow>
          (case remove_ending_at_index st of
             None \<Rightarrow> boneyard st
           | Some e \<Rightarrow> if s \<noteq> e then dict_set (boneyard st) s e else boneyard st))"

definition scan_spans :: "(string \<Rightarrow> bool) \<Rightarrow> string list \<Rightarrow> (nat \<times> nat) list" where
  "scan_spans ms ls = scan_finish (scan_loop ms ls)"

text \<open>\<open>del content_lines[startidx: endidx + 1]\<close>; an empty slice deletes nothing.\<close>

definition del_slice :: "string list \<Rightarrow> nat \<Rightarrow> nat \<Rightarrow> string list" where
  "del_slice ls s e = take s ls @ drop (max s (Suc e)) ls"

definition delete_spans :: "(nat \<times> nat) list \<Rightarrow> string list \<Rightarrow> string list" where
  "delete_spans bone ls = foldl (\<lambda>cl (s, e). del_slice cl s e) ls (rev bone)"

text \<open>
  \<open>swap_lines\<close> is the list \<open>content_lines\<close> when \<open>swap_text\<close> returns (the list the caller
  passed in, mutated in place); \<open>swap_text_with\<close> is the returned text, for a compiled
  pattern \<open>ms\<close>.  \<open>swap_text\<close> itself compiles the pattern from \<open>removing\<close>; its result is
  \<open>None\<close> when the identifier is outside the modelled fragment of pattern syntax.
\<close>

definition swap_lines :: "(string \<Rightarrow> bool) \<Rightarrow> string list \<Rightarrow> string \<Rightarrow> string list" where
  "swap_lines ms original adding =
     (let content_lines = delete_spans (scan_spans ms original) original in
      if length adding > 0 then content_lines @ split_nl adding else content_lines)"

definition swap_text_with :: "(string \<Rightarrow> bool) \<Rightarrow> string list \<Rightarrow> string \<Rightarrow> string" where
  "swap_text_with ms original adding = join_nl (swap_lines ms original adding)"

text \<open>\<open>ms.match(line) is not None\<close> for the pattern compiled from \<open>removing\<close>.\<close>

definition ms_match :: "string \<Rightarrow> string \<Rightarrow> bool option" where
  "ms_match removing line =
     (case re_compile_ms removing of
        None \<Rightarrow> None
      | Some p \<Rightarrow> Some (re_match p line))"

definition matches :: "string \<Rightarrow> string \<Rightarrow> bool" where
  "matches removing line = (ms_match removing line = Some True)"

text \<open>The spans that \<open>swap_text original adding removing\<close> records in \<open>boneyard\<close>.\<close>

definition swap_spans :: "string list \<Rightarrow> string \<Rightarrow> (nat \<times> nat) list option" where
  "swap_spans original removing =
     (case re_compile_ms removing of
        None \<Rightarrow> None
      | Some p \<Rightarrow> Some (scan_spans (re_match p) original))"

definition swap_text :: "string list \<Rightarrow> string \<Rightarrow> string \<Rightarrow> string option" where
  "swap_text original adding removing =
     (case re_compile_ms removing of
        None \<Rightarrow> None
      | Some p \<Rightarrow> Some (swap_text_with (re_match p) original adding))"

section \<open>The write-back step of \<open>run_module\<close>\<close>

text \<open>
  \<^verbatim>\<open>
  newtext = swap_text(content, parmtext, src)
  if newtext != content:
      fh.write(newtext) ... copy_uss2mvs(tmp_file_filename, data_set_name, "PO", False)
  \<close>
  \<open>newtext\<close> is the \<open>str\<close> that \<open>swap_text\<close> returns; \<open>content\<close> is the \<open>list\<close> read with
  \<open>splitlines()\<close>, which \<open>swap_text\<close> has edited in place.  Python compares values of
  different built-in types as unequal.
\<close>

datatype py_value = PyStr string | PyList "string list"

definition py_ne :: "py_value \<Rightarrow> py_value \<Rightarrow> bool" where
  "py_ne a b = (a \<noteq> b)"

datatype write_back = Wrote string | NotWritten

definition write_back_with :: "(string \<Rightarrow> bool) \<Rightarrow> string list \<Rightarrow> string \<Rightarrow> write_back" where
  "write_back_with ms content parmtext =
     (let newtext = swap_text_with ms content parmtext;
          content' = swap_lines ms content parmtext
      in if py_ne (PyStr newtext) (PyList content') then Wrote newtext else NotWritten)"

definition write_back_step :: "string list \<Rightarrow> string \<Rightarrow> string \<Rightarrow> write_back option" where
  "write_back_step content parmtext src =
     (case re_compile_ms src of
        None \<Rightarrow> None
      | Some p \<Rightarrow> Some (write_back_with (re_match p) content parmtext))"

section \<open>The comment builder of \<open>run_module\<close>\<close>








section \<open>Auxiliary notions for the proofs\<close>

text \<open>The loop of \<open>swap_text\<close> run over the indices \<open>a, \<dots>, b - 1\<close> from a given state.\<close>

definition scan_range :: "(string \<Rightarrow> bool) \<Rightarrow> string list \<Rightarrow> scan_state \<Rightarrow> nat \<Rightarrow> nat \<Rightarrow> scan_state" where
  "scan_range ms ls st a b = foldl (scan_step ms ls) st [a..<b]"

text \<open>
  A line over which the backward walk continues: not empty, opening with \<open>/*\<close>, and not
  opening with \<open>/* BEG\<close>.
\<close>

definition plain_comment :: "string \<Rightarrow> bool" where
  "plain_comment l = (l \<noteq> [] \<and> take 2 l = ''/*'' \<and> take 6 l \<noteq> ''/* BEG'')"

text \<open>
  The shape of a managed block as the builder writes it: a BEGIN comment, comment lines,
  the directive, continuation lines that keep the span open, and an END comment.
\<close>

definition block_ok :: "(string \<Rightarrow> bool) \<Rightarrow> string \<Rightarrow> string list \<Rightarrow> string \<Rightarrow> string list \<Rightarrow> string \<Rightarrow> bool" where
  "block_ok ms bg cms mt conts en =
     (take 6 bg = ''/* BEG'' \<and> list_all plain_comment cms \<and> ms mt \<and>
      list_all (\<lambda>l. \<not> doit l) conts \<and> take 6 en = ''/* END'')"

definition block_lines :: "string \<Rightarrow> string list \<Rightarrow> string \<Rightarrow> string list \<Rightarrow> string \<Rightarrow> string list" where
  "block_lines bg cms mt conts en = bg # cms @ mt # conts @ [en]"

definition no_comment_match :: "(string \<Rightarrow> bool) \<Rightarrow> bool" where
  "no_comment_match ms = (\<forall>l. ms l \<longrightarrow> take 2 l \<noteq> ''/*'')"

text \<open>
  The facts that hold between two iterations of the loop, \<open>k\<close> lines having been
  processed: the recorded spans have ascending starts and ascending ends and begin at a
  line at which the backward walk stops; an open span reaches the last processed line and
  starts at or after every recorded start; every matching line processed so far lies in a
  recorded span or in the open one.
\<close>

definition covered :: "(nat \<times> nat) list \<Rightarrow> nat \<Rightarrow> bool" where
  "covered bone j = list_ex (\<lambda>q. fst q \<le> j \<and> j \<le> snd q) bone"

definition spans_ok :: "string list \<Rightarrow> nat \<Rightarrow> (nat \<times> nat) list \<Rightarrow> bool" where
  "spans_ok ls k bone =
     (sorted_wrt (<) (map fst bone) \<and> sorted_wrt (<) (map snd bone) \<and>
      list_all (\<lambda>q. fst q \<le> snd q \<and> snd q < k \<and> \<not> plain_comment (ls ! fst q)) bone)"

definition open_ok :: "string list \<Rightarrow> nat \<Rightarrow> scan_state \<Rightarrow> bool" where
  "open_ok ls k st =
     (case remove_starting_at_index st of
        None \<Rightarrow> remove_ending_at_index st = None
      | Some s \<Rightarrow>
          remove_ending_at_index st = Some (k - 1) \<and> 0 < k \<and> s \<le> k - 1 \<and>
          \<not> plain_comment (ls ! s) \<and>
          list_all (\<lambda>q. fst q \<le> s \<and> snd q < k - 1) (boneyard st))"

definition covers :: "(string \<Rightarrow> bool) \<Rightarrow> string list \<Rightarrow> nat \<Rightarrow> scan_state \<Rightarrow> bool" where
  "covers ms ls k st =
     (\<forall>j<k. ms (ls ! j) \<longrightarrow>
        covered (boneyard st) j \<or> (\<exists>s. remove_starting_at_index st = Some s \<and> s \<le> j))"

definition scan_inv :: "(string \<Rightarrow> bool) \<Rightarrow> string list \<Rightarrow> nat \<Rightarrow> scan_state \<Rightarrow> bool" where
  "scan_inv ms ls k st = (spans_ok ls k (boneyard st) \<and> open_ok ls k st \<and> covers ms ls k st)"







section \<open>Concrete buffers\<close>

text \<open>The directive line \<open>MOUNT FILESYSTEM('name')\<close>.\<close>

definition mount_line :: "string \<Rightarrow> string" where
  "mount_line name = ''MOUNT FILESYSTEM('' @ [CHR 0x27] @ name @ [CHR 0x27] @ '')''"

definition buf_top_comment :: "string list" where
  "buf_top_comment = [''/* c */'', mount_line ''A'', []]"

definition buf_next_stmt :: "string list" where
  "buf_next_stmt = [''x'', mount_line ''A'', ''  MOUNTPOINT(/a)'', ''NEXT STATEMENT'', ''z'']"





text \<open>Buffers that end inside a block, and the text of a block for \<open>A\<close>.\<close>

definition buf_open_tail :: "string list" where
  "buf_open_tail = [''x'', mount_line ''A'', ''  MOUNTPOINT(/a)'']"

definition buf_bare_tail :: "string list" where
  "buf_bare_tail = [''x'', mount_line ''A'']"

definition buf_two_stale :: "string list" where
  "buf_two_stale =
     [''x'', mount_line ''A'', ''  MOUNTPOINT(/a)'', [], ''y'', mount_line ''A'', ''  MOUNTPOINT(/b)'']"

definition block_A_text :: string where
  "block_A_text = join_nl [''/* BEGIN A */'', mount_line ''A'', ''  MOUNTPOINT(/a)'', ''/* END A */'', []]"

text \<open>
  The block that \<open>run_module\<close> builds for \<open>src = A\<close>, \<open>path = /a\<close>, \<open>fs_type = ZFS\<close> with the
  default options and no \<open>tabcomment\<close>, at the time stamp \<open>20210101-000000\<close>.
\<close>

definition gen_begin :: string where
  "gen_begin = ''/* BEGIN ANSIBLE MANAGED BLOCK 20210101-000000 */''"

definition gen_block_lines :: "string list" where
  "gen_block_lines =
     [gen_begin,
      mount_line ''A'',
      ''      MOUNTPOINT('' @ [CHR 0x27] @ ''/a'' @ [CHR 0x27] @ '')'',
      ''      TYPE('' @ [CHR 0x27] @ ''ZFS'' @ [CHR 0x27] @ '')'',
      ''      MODE(RDWR)'',
      ''      SETUID'',
      ''      WAIT'',
      ''      SECURITY'',
      ''      AUTOMOVE'',
      ''/* END ANSIBLE MANAGED BLOCK 20210101-000000 */'']"

definition gen_block_A :: string where
  "gen_block_A = join_nl (gen_block_lines @ [[]])"

text \<open>A member written by hand, with one statement per line.\<close>

definition one_line_mount :: "string \<Rightarrow> string \<Rightarrow> string" where
  "one_line_mount name path =
     mount_line name @ '' MOUNTPOINT('' @ [CHR 0x27] @ path @ [CHR 0x27] @ '') TYPE(ZFS) MODE(RDWR)''"

definition buf_one_line :: "string list" where
  "buf_one_line = [''/* mounts */'', one_line_mount ''A'' ''/a'', one_line_mount ''B'' ''/b'', ''keep'']"

text \<open>
  Comment lines above a directive: reaching the top of the buffer, and below an empty
  line.
\<close>

definition buf_comments_top :: "string list" where
  "buf_comments_top =
     [''/* c1 */'', ''/* c2 */'', ''/* c3 */'', mount_line ''A'', ''      MOUNTPOINT(/a)'', []]"

definition buf_comments_below_blank :: "string list" where
  "buf_comments_below_blank =
     [''x'', [], ''/* c2 */'', ''/* c3 */'', mount_line ''A'', ''      MOUNTPOINT(/a)'', []]"



section \<open>The scanning loop\<close>

lemma scan_range_same: "scan_range ms ls st a a = st"
  by (simp add: scan_range_def)

lemma scan_range_Suc:
  "a \<le> b \<Longrightarrow> scan_range ms ls st a (Suc b) = scan_step ms ls (scan_range ms ls st a b) b"
  by (simp add: scan_range_def)

lemma scan_range_split:
  "a \<le> b \<Longrightarrow> b \<le> c \<Longrightarrow> scan_range ms ls st a c = scan_range ms ls (scan_range ms ls st a b) b c"
proof -
  assume ab: "a \<le> b" and bc: "b \<le> c"
  have "[a..<c] = [a..<b] @ [b..<c]"
    using ab bc by (metis le_Suc_ex upt_add_eq_append)
  then show ?thesis by (simp add: scan_range_def)
qed

lemma scan_loop_range: "scan_loop ms ls = scan_range ms ls scan_init 0 (length ls)"
  by (simp add: scan_loop_def scan_range_def)

lemma scan_step_idle:
  "remove_starting_at_index st = None \<Longrightarrow> \<not> ms (ls ! i) \<Longrightarrow> scan_step ms ls st i = st"
  by (simp add: scan_step_def)

lemma scan_step_match:
  "remove_starting_at_index st = None \<Longrightarrow> ms (ls ! i) \<Longrightarrow>
   scan_step ms ls st i =
     st\<lparr>remove_starting_at_index := Some (back_scan ls i), remove_ending_at_index := Some i\<rparr>"
  by (simp add: scan_step_def)

lemma scan_step_continue:
  "remove_starting_at_index st = Some s \<Longrightarrow> \<not> doit (ls ! i) \<Longrightarrow>
   scan_step ms ls st i = st\<lparr>remove_ending_at_index := Some i\<rparr>"
  by (simp add: scan_step_def)

lemma scan_step_close:
  "remove_starting_at_index st = Some s \<Longrightarrow> doit (ls ! i) \<Longrightarrow>
   scan_step ms ls st i =
     st\<lparr>remove_starting_at_index := None, remove_ending_at_index := None,
        boneyard := dict_set (boneyard st) s i\<rparr>"
  by (simp add: scan_step_def)

lemma scan_range_idle:
  "remove_starting_at_index st = None \<Longrightarrow> (\<forall>k. a \<le> k \<and> k < b \<longrightarrow> \<not> ms (ls ! k)) \<Longrightarrow>
   scan_range ms ls st a b = st"
proof (induction b)
  case 0
  then show ?case by (simp add: scan_range_def)
next
  case (Suc b)
  show ?case
  proof (cases "a \<le> b")
    case True
    have "scan_range ms ls st a b = st" using Suc by simp
    moreover have "\<not> ms (ls ! b)" using Suc.prems True by simp
    ultimately show ?thesis using True Suc.prems(1)
      by (simp add: scan_range_Suc scan_step_idle)
  next
    case False
    then show ?thesis by (simp add: scan_range_def)
  qed
qed

lemma scan_range_continue:
  "remove_starting_at_index st = Some s \<Longrightarrow> (\<forall>k. a \<le> k \<and> k < b \<longrightarrow> \<not> doit (ls ! k)) \<Longrightarrow>
   a < b \<Longrightarrow> scan_range ms ls st a b = st\<lparr>remove_ending_at_index := Some (b - 1)\<rparr>"
proof (induction b)
  case 0
  then show ?case by simp
next
  case (Suc b)
  show ?case
  proof (cases "a < b")
    case True
    have "scan_range ms ls st a b = st\<lparr>remove_ending_at_index := Some (b - 1)\<rparr>"
      using Suc True by simp
    moreover have "\<not> doit (ls ! b)" using Suc.prems True by simp
    ultimately show ?thesis using True Suc.prems(1)
      by (simp add: scan_range_Suc scan_step_continue [where s = s])
  next
    case False
    then have ab: "a = b" using Suc.prems by simp
    have "\<not> doit (ls ! b)" using Suc.prems ab by simp
    then show ?thesis using ab Suc.prems(1)
      by (simp add: scan_range_Suc scan_range_same scan_step_continue [where s = s])
  qed
qed

lemma scan_range_block_from:
  assumes ij: "i < j"
    and closed: "remove_starting_at_index st = None"
    and hit: "ms (ls ! i)"
    and body: "\<forall>k. i < k \<and> k < j \<longrightarrow> \<not> doit (ls ! k)"
    and close: "doit (ls ! j)"
  shows "scan_range ms ls st i (Suc j) =
           st\<lparr>remove_starting_at_index := None, remove_ending_at_index := None,
              boneyard := dict_set (boneyard st) (back_scan ls i) j\<rparr>"
proof -
  let ?s = "back_scan ls i"
  let ?open = "st\<lparr>remove_starting_at_index := Some ?s, remove_ending_at_index := Some i\<rparr>"
  have b: "scan_range ms ls st i (Suc i) = ?open"
    using closed hit by (simp add: scan_range_Suc scan_range_same scan_step_match)
  have c: "scan_range ms ls st i j =
             st\<lparr>remove_starting_at_index := Some ?s, remove_ending_at_index := Some (j - 1)\<rparr>"
  proof (cases "Suc i = j")
    case True
    then show ?thesis using b by auto
  next
    case False
    then have lt: "Suc i < j" using ij by simp
    have "scan_range ms ls st i j = scan_range ms ls (scan_range ms ls st i (Suc i)) (Suc i) j"
      by (rule scan_range_split) (use lt in auto)
    also have "\<dots> = ?open\<lparr>remove_ending_at_index := Some (j - 1)\<rparr>"
      unfolding b using body lt by (intro scan_range_continue [where s = ?s]) auto
    finally show ?thesis by simp
  qed
  have "scan_range ms ls st i (Suc j) = scan_step ms ls (scan_range ms ls st i j) j"
    using ij by (simp add: scan_range_Suc)
  then show ?thesis
    unfolding c using close by (simp add: scan_step_close [where s = ?s])
qed

lemma scan_range_block_closed:
  assumes ij: "i < j"
    and pre: "\<forall>k. k < i \<longrightarrow> \<not> ms (ls ! k)"
    and hit: "ms (ls ! i)"
    and body: "\<forall>k. i < k \<and> k < j \<longrightarrow> \<not> doit (ls ! k)"
    and close: "doit (ls ! j)"
  shows "scan_range ms ls scan_init 0 (Suc j) =
           \<lparr>remove_starting_at_index = None, remove_ending_at_index = None,
            boneyard = [(back_scan ls i, j)]\<rparr>"
proof -
  have a: "scan_range ms ls scan_init 0 i = scan_init"
    using pre by (simp add: scan_range_idle scan_init_def)
  have "scan_range ms ls scan_init 0 (Suc j) = scan_range ms ls (scan_range ms ls scan_init 0 i) i (Suc j)"
    by (rule scan_range_split) (use ij in auto)
  also have "\<dots> = scan_init\<lparr>remove_starting_at_index := None, remove_ending_at_index := None,
              boneyard := dict_set (boneyard scan_init) (back_scan ls i) j\<rparr>"
    unfolding a
    by (rule scan_range_block_from [where ms = ms and ls = ls and i = i and j = j, OF ij _ hit body close])
       (simp add: scan_init_def)
  finally show ?thesis by (simp add: scan_init_def)
qed

lemma scan_loop_single_block:
  assumes ij: "i < j" and jl: "j < length ls"
    and pre: "\<forall>k. k < i \<longrightarrow> \<not> ms (ls ! k)"
    and hit: "ms (ls ! i)"
    and body: "\<forall>k. i < k \<and> k < j \<longrightarrow> \<not> doit (ls ! k)"
    and close: "doit (ls ! j)"
    and post: "\<forall>k. j < k \<and> k < length ls \<longrightarrow> \<not> ms (ls ! k)"
  shows "scan_loop ms ls =
           \<lparr>remove_starting_at_index = None, remove_ending_at_index = None,
            boneyard = [(back_scan ls i, j)]\<rparr>"
proof -
  let ?s = "back_scan ls i"
  note d = scan_range_block_closed [OF ij pre hit body close]
  have "scan_loop ms ls = scan_range ms ls (scan_range ms ls scan_init 0 (Suc j)) (Suc j) (length ls)"
    unfolding scan_loop_range by (rule scan_range_split) (use jl in auto)
  also have "\<dots> = \<lparr>remove_starting_at_index = None, remove_ending_at_index = None,
                     boneyard = [(?s, j)]\<rparr>"
    unfolding d using post by (subst scan_range_idle) auto
  finally show ?thesis .
qed

lemma back_walk_plain:
  "(\<forall>k. 1 \<le> k \<and> k \<le> t \<longrightarrow> plain_comment (ls ! k)) \<Longrightarrow> back_walk ls d t = d"
proof (induction t)
  case 0
  then show ?case by simp
next
  case (Suc t)
  have "plain_comment (ls ! Suc t)" using Suc.prems by simp
  moreover have "back_walk ls d t = d" using Suc by simp
  ultimately show ?case by (simp add: plain_comment_def Let_def)
qed

lemma back_walk_stop:
  "1 \<le> r \<Longrightarrow> r \<le> t \<Longrightarrow> \<not> plain_comment (ls ! r) \<Longrightarrow>
   (\<forall>k. r < k \<and> k \<le> t \<longrightarrow> plain_comment (ls ! k)) \<Longrightarrow> back_walk ls d t = r"
proof (induction t)
  case 0
  then show ?case by simp
next
  case (Suc t)
  show ?case
  proof (cases "r = Suc t")
    case True
    then show ?thesis using Suc.prems(3) by (auto simp: plain_comment_def Let_def)
  next
    case False
    then have rt: "r \<le> t" using Suc.prems by simp
    have "plain_comment (ls ! Suc t)" using Suc.prems rt by simp
    moreover have "back_walk ls d t = r" using Suc rt by simp
    ultimately show ?thesis by (simp add: plain_comment_def Let_def)
  qed
qed

lemma back_walk_cases:
  "back_walk ls d t = d \<or>
   (1 \<le> back_walk ls d t \<and> back_walk ls d t \<le> t \<and> \<not> plain_comment (ls ! back_walk ls d t))"
proof (induction t)
  case 0
  then show ?case by simp
next
  case (Suc t)
  show ?case
  proof (cases "plain_comment (ls ! Suc t)")
    case True
    then have "back_walk ls d (Suc t) = back_walk ls d t"
      by (simp add: plain_comment_def Let_def)
    then show ?thesis using Suc by auto
  next
    case False
    then have "back_walk ls d (Suc t) = Suc t"
      by (auto simp: plain_comment_def Let_def)
    then show ?thesis using False by simp
  qed
qed

lemma back_walk_ge:
  "1 \<le> r \<Longrightarrow> r \<le> t \<Longrightarrow> \<not> plain_comment (ls ! r) \<Longrightarrow>
   r \<le> back_walk ls d t \<and> back_walk ls d t \<le> t"
proof (induction t)
  case 0
  then show ?case by simp
next
  case (Suc t)
  show ?case
  proof (cases "plain_comment (ls ! Suc t)")
    case True
    then have eq: "back_walk ls d (Suc t) = back_walk ls d t"
      by (simp add: plain_comment_def Let_def)
    have "r \<noteq> Suc t" using True Suc.prems by auto
    then have "r \<le> t" using Suc.prems by simp
    then show ?thesis using Suc eq by simp
  next
    case False
    then have "back_walk ls d (Suc t) = Suc t"
      by (auto simp: plain_comment_def Let_def)
    then show ?thesis using Suc.prems by simp
  qed
qed

lemma back_scan_le: "back_scan ls i \<le> i"
proof (cases "i > 0")
  case True
  then show ?thesis
    using back_walk_cases [of ls i "i - 1"] by (auto simp: back_scan_def)
next
  case False
  then show ?thesis by (simp add: back_scan_def)
qed

lemma back_scan_cases:
  "back_scan ls i = i \<or>
   (1 \<le> back_scan ls i \<and> back_scan ls i < i \<and> \<not> plain_comment (ls ! back_scan ls i))"
proof (cases "i > 0")
  case True
  then show ?thesis
    using back_walk_cases [of ls i "i - 1"] by (auto simp: back_scan_def)
next
  case False
  then show ?thesis by (simp add: back_scan_def)
qed

lemma back_scan_ge:
  "r < i \<Longrightarrow> \<not> plain_comment (ls ! r) \<Longrightarrow> r \<le> back_scan ls i"
proof (cases "r = 0")
  case True
  then show ?thesis by simp
next
  case False
  assume "r < i" and "\<not> plain_comment (ls ! r)"
  then show ?thesis
    using False back_walk_ge [of r "i - 1" ls i] by (simp add: back_scan_def)
qed

lemma back_scan_all_plain:
  "(\<forall>k. 1 \<le> k \<and> k < i \<longrightarrow> plain_comment (ls ! k)) \<Longrightarrow> back_scan ls i = i"
  by (cases "i > 0") (auto simp: back_scan_def intro: back_walk_plain)

lemma back_scan_stop:
  "1 \<le> r \<Longrightarrow> r < i \<Longrightarrow> \<not> plain_comment (ls ! r) \<Longrightarrow>
   (\<forall>k. r < k \<and> k < i \<longrightarrow> plain_comment (ls ! k)) \<Longrightarrow> back_scan ls i = r"
proof -
  assume r1: "1 \<le> r" and ri: "r < i" and np: "\<not> plain_comment (ls ! r)"
    and pl: "\<forall>k. r < k \<and> k < i \<longrightarrow> plain_comment (ls ! k)"
  have a: "r \<le> i - 1" using ri by simp
  have b: "\<forall>k. r < k \<and> k \<le> i - 1 \<longrightarrow> plain_comment (ls ! k)"
  proof (intro allI impI)
    fix k assume "r < k \<and> k \<le> i - 1"
    then have "r < k \<and> k < i" using ri by arith
    then show "plain_comment (ls ! k)" using pl by blast
  qed
  have "back_walk ls i (i - 1) = r" by (rule back_walk_stop [OF r1 a np b])
  then show ?thesis using ri by (simp add: back_scan_def)
qed

lemma delete_spans_Nil: "delete_spans [] ls = ls"
  by (simp add: delete_spans_def)

lemma delete_spans_snoc:
  "delete_spans (bone @ [(s, e)]) ls = delete_spans bone (del_slice ls s e)"
  by (simp add: delete_spans_def)

lemma delete_spans_single: "s \<le> e \<Longrightarrow> delete_spans [(s, e)] ls = take s ls @ drop (Suc e) ls"
  by (simp add: delete_spans_def del_slice_def max_def)

section \<open>A managed block inside a buffer\<close>

lemma take6_take2:
  assumes "take 6 l = ''/* BEG'' \<or> take 6 l = ''/* END''"
  shows "take 2 l = ''/*''"
proof -
  have t: "take 2 (take 6 l) = take 2 l" by simp
  from assms show ?thesis
  proof
    assume a: "take 6 l = ''/* BEG''"
    have "take 2 (take 6 l) = ''/*''" by (subst a) simp
    then show ?thesis using t by simp
  next
    assume a: "take 6 l = ''/* END''"
    have "take 2 (take 6 l) = ''/*''" by (subst a) simp
    then show ?thesis using t by simp
  qed
qed

lemma doit_END: "take 6 l = ''/* END'' \<Longrightarrow> doit l"
proof -
  assume a: "take 6 l = ''/* END''"
  then have "l \<noteq> []" by auto
  then show ?thesis using a by (simp add: doit_def)
qed

lemma block_nth:
  fixes pre :: "string list"
  defines "n \<equiv> length pre"
  shows "k < n \<Longrightarrow> (pre @ block_lines bg cms mt conts en @ post) ! k = pre ! k"
    and "(pre @ block_lines bg cms mt conts en @ post) ! n = bg"
    and "n < k \<Longrightarrow> k \<le> n + length cms \<Longrightarrow>
         (pre @ block_lines bg cms mt conts en @ post) ! k = cms ! (k - n - 1)"
    and "(pre @ block_lines bg cms mt conts en @ post) ! (n + length cms + 1) = mt"
    and "n + length cms + 1 < k \<Longrightarrow> k \<le> n + length cms + 1 + length conts \<Longrightarrow>
         (pre @ block_lines bg cms mt conts en @ post) ! k = conts ! (k - (n + length cms + 2))"
    and "(pre @ block_lines bg cms mt conts en @ post) ! (n + length cms + length conts + 2) = en"
    and "n + length cms + length conts + 2 < k \<Longrightarrow>
         (pre @ block_lines bg cms mt conts en @ post) ! k
           = post ! (k - (n + length cms + length conts + 3))"
  unfolding n_def block_lines_def
  by (auto simp: nth_append nth_Cons' eval_nat_numeral)

lemma plain_comment_no_match: "no_comment_match ms \<Longrightarrow> plain_comment l \<Longrightarrow> \<not> ms l"
  by (auto simp: no_comment_match_def plain_comment_def)

lemma block_scan:
  assumes ok: "block_ok ms bg cms mt conts en"
    and ncm: "no_comment_match ms"
    and pre: "pre \<noteq> []" "list_all (\<lambda>l. \<not> ms l) pre"
    and post: "list_all (\<lambda>l. \<not> ms l) post"
  shows "scan_loop ms (pre @ block_lines bg cms mt conts en @ post) =
           \<lparr>remove_starting_at_index = None, remove_ending_at_index = None,
            boneyard = [(length pre, length pre + length cms + length conts + 2)]\<rparr>"
proof -
  let ?ls = "pre @ block_lines bg cms mt conts en @ post"
  let ?n = "length pre"
  let ?i = "?n + length cms + 1"
  let ?j = "?n + length cms + length conts + 2"
  have bg6: "take 6 bg = ''/* BEG''" and cms: "list_all plain_comment cms" and mt: "ms mt"
    and conts: "list_all (\<lambda>l. \<not> doit l) conts" and en6: "take 6 en = ''/* END''"
    using ok by (simp_all add: block_ok_def)
  have len: "length ?ls = ?n + length cms + length conts + 3 + length post"
    by (simp add: block_lines_def)
  have bg_no: "\<not> ms bg" using ncm take6_take2 [of bg] bg6 by (auto simp: no_comment_match_def)
  have bg_np: "\<not> plain_comment bg" using bg6 by (simp add: plain_comment_def)
  have cms_k: "plain_comment (?ls ! k)" if "?n < k" "k \<le> ?n + length cms" for k
  proof -
    have "?ls ! k = cms ! (k - ?n - 1)" using that by (rule block_nth(3))
    moreover have "k - ?n - 1 < length cms" using that by arith
    ultimately show ?thesis using cms by (simp add: list_all_length)
  qed
  have a1: "?i < ?j" by simp
  have a2: "?j < length ?ls" using len by simp
  have a3: "\<forall>k. k < ?i \<longrightarrow> \<not> ms (?ls ! k)"
  proof (intro allI impI)
    fix k assume k: "k < ?i"
    consider "k < ?n" | "k = ?n" | "?n < k \<and> k \<le> ?n + length cms" using k by arith
    then show "\<not> ms (?ls ! k)"
    proof cases
      case 1
      then have "?ls ! k = pre ! k" by (rule block_nth(1))
      then show ?thesis using pre(2) 1 by (simp add: list_all_length)
    next
      case 2
      then show ?thesis using bg_no by (simp add: block_nth(2))
    next
      case 3
      then show ?thesis using cms_k ncm plain_comment_no_match by blast
    qed
  qed
  have a4: "ms (?ls ! ?i)" unfolding block_nth(4) by (rule mt)
  have a5: "\<forall>k. ?i < k \<and> k < ?j \<longrightarrow> \<not> doit (?ls ! k)"
  proof (intro allI impI)
    fix k assume k: "?i < k \<and> k < ?j"
    then have "?ls ! k = conts ! (k - (?n + length cms + 2))"
      by (intro block_nth(5)) auto
    moreover have "k - (?n + length cms + 2) < length conts" using k by arith
    ultimately show "\<not> doit (?ls ! k)" using conts by (simp add: list_all_length)
  qed
  have a6: "doit (?ls ! ?j)" unfolding block_nth(6) by (rule doit_END [OF en6])
  have a7: "\<forall>k. ?j < k \<and> k < length ?ls \<longrightarrow> \<not> ms (?ls ! k)"
  proof (intro allI impI)
    fix k assume k: "?j < k \<and> k < length ?ls"
    then have "?ls ! k = post ! (k - (?n + length cms + length conts + 3))"
      by (intro block_nth(7)) auto
    moreover have "k - (?n + length cms + length conts + 3) < length post" using k len by arith
    ultimately show "\<not> ms (?ls ! k)" using post by (simp add: list_all_length)
  qed
  have bs: "back_scan ?ls ?i = ?n"
  proof (rule back_scan_stop)
    show "1 \<le> ?n" using pre(1) by (cases pre) auto
    show "?n < ?i" by simp
    show "\<not> plain_comment (?ls ! ?n)" using bg_np by (simp add: block_nth(2))
    show "\<forall>k. ?n < k \<and> k < ?i \<longrightarrow> plain_comment (?ls ! k)"
      using cms_k by auto
  qed
  show ?thesis
    using scan_loop_single_block [OF a1 a2 a3 a4 a5 a6 a7] bs by simp
qed

lemma block_delete:
  assumes ok: "block_ok ms bg cms mt conts en"
    and ncm: "no_comment_match ms"
    and pre: "pre \<noteq> []" "list_all (\<lambda>l. \<not> ms l) pre"
    and post: "list_all (\<lambda>l. \<not> ms l) post"
  shows "delete_spans (scan_spans ms (pre @ block_lines bg cms mt conts en @ post))
           (pre @ block_lines bg cms mt conts en @ post) = pre @ post"
proof -
  have sp: "scan_spans ms (pre @ block_lines bg cms mt conts en @ post)
              = [(length pre, length pre + length cms + length conts + 2)]"
    using block_scan [OF assms] by (simp add: scan_spans_def scan_finish_def)
  let ?b = "block_lines bg cms mt conts en"
  have lb: "length ?b = length cms + length conts + 3" by (simp add: block_lines_def)
  have "drop (Suc (length pre + length cms + length conts + 2)) (pre @ ?b @ post)
          = drop (length ?b) (?b @ post)"
    unfolding lb by (simp add: eval_nat_numeral)
  then have "drop (Suc (length pre + length cms + length conts + 2)) (pre @ ?b @ post) = post"
    by simp
  then show ?thesis
    unfolding sp by (simp add: delete_spans_single)
qed

section \<open>The compiled pattern\<close>

lemma re_star_first:
  "re_match (SpaceStar # Lit c # q) l \<Longrightarrow> l \<noteq> [] \<and> (hd l = c \<or> is_space (hd l))"
  by (cases l) auto

lemma slash_not_space: "\<not> is_space (CHR ''/'')"
  by (simp add: is_space_def space_chars_def)

lemma compiled_first:
  assumes "re_compile_ms rid = Some p"
  shows "\<exists>q. p = SpaceStar # Lit (CHR ''M'') # q"
  using assms by (auto simp: re_compile_ms_def split: option.splits)

lemma compiled_no_comment_match:
  assumes c: "re_compile_ms rid = Some p"
  shows "no_comment_match (re_match p)"
  unfolding no_comment_match_def
proof (intro allI impI)
  fix l assume m: "re_match p l"
  obtain q where p: "p = SpaceStar # Lit (CHR ''M'') # q" using compiled_first [OF c] by blast
  have l: "l \<noteq> [] \<and> (hd l = CHR ''M'' \<or> is_space (hd l))"
    using m unfolding p by (rule re_star_first)
  show "take 2 l \<noteq> ''/*''"
  proof
    assume t: "take 2 l = ''/*''"
    then have "hd l = CHR ''/''" using l by (cases l) auto
    then show False using l slash_not_space by auto
  qed
qed

lemma re_lits: "re_match (map Lit w @ p) (w @ s) = re_match p s"
  by (induction w) auto

lemma re_lits_prefix: "re_match (map Lit w @ p) l \<Longrightarrow> \<exists>r. l = w @ r"
proof (induction w arbitrary: l)
  case Nil
  then show ?case by simp
next
  case (Cons c w)
  then show ?case by (cases l) auto
qed

lemma re_space_star: "list_all is_space ws \<Longrightarrow> re_match p s \<Longrightarrow> re_match (SpaceStar # p) (ws @ s)"
  by (induction ws) auto

lemma re_space_plus:
  "ws \<noteq> [] \<Longrightarrow> list_all is_space ws \<Longrightarrow> re_match p s \<Longrightarrow> re_match (SpacePlus # p) (ws @ s)"
proof -
  assume ne: "ws \<noteq> []" and sp: "list_all is_space ws" and m: "re_match p s"
  obtain a list where ws: "ws = a # list" using ne by (cases ws) auto
  have "re_match (SpaceStar # p) (list @ s)"
    using sp m ws by (intro re_space_star) auto
  then show ?thesis using sp ws by (simp del: re_match.simps(5))
qed

lemma re_ident_self:
  "re_ident u = Some idp \<Longrightarrow> CHR ''$'' \<notin> set u \<Longrightarrow> re_match (idp @ p) (u @ s) = re_match p s"
proof (induction u arbitrary: idp)
  case Nil
  then show ?case by simp
next
  case (Cons c u)
  then show ?case by (auto split: option.splits if_splits)
qed



lemma re_star_keyword:
  assumes w: "w \<noteq> []" "\<not> is_space (hd w)"
  shows "re_match (SpaceStar # map Lit w @ q) l \<Longrightarrow> \<exists>r. dropWhile is_space l = w @ r"
proof (induction l)
  case Nil
  then have "re_match (map Lit w @ q) []" by simp
  then show ?case using re_lits_prefix w by fastforce
next
  case (Cons x xs)
  show ?case
  proof (cases "re_match (map Lit w @ q) (x # xs)")
    case True
    then obtain r where r: "x # xs = w @ r" using re_lits_prefix by blast
    then have "x = hd w" using w(1) by (cases w) auto
    then have "\<not> is_space x" using w(2) by simp
    then have "dropWhile is_space (x # xs) = w @ r"
      unfolding r [symmetric] by simp
    then show ?thesis by blast
  next
    case False
    then have "is_space x" and "re_match (SpaceStar # map Lit w @ q) xs"
      using Cons.prems by auto
    then show ?thesis using Cons.IH by auto
  qed
qed

section \<open>From the compiled pattern to the editor\<close>

lemma matches_re: "re_compile_ms rid = Some p \<Longrightarrow> matches rid = re_match p"
  by (rule ext) (simp add: matches_def ms_match_def)

lemma swap_text_compiled:
  "re_compile_ms rid \<noteq> None \<Longrightarrow>
   swap_text original adding rid = Some (swap_text_with (matches rid) original adding)"
  by (auto simp: swap_text_def matches_re)

lemma matches_no_comment: "re_compile_ms rid \<noteq> None \<Longrightarrow> no_comment_match (matches rid)"
  by (auto simp: matches_re compiled_no_comment_match)

lemma list_all_take_nth:
  "list_all P (take i ls) \<Longrightarrow> i \<le> length ls \<Longrightarrow> k < i \<Longrightarrow> P (ls ! k)"
proof -
  assume a: "list_all P (take i ls)" and i: "i \<le> length ls" and k: "k < i"
  have "P (take i ls ! k)" using a k i by (simp add: list_all_length)
  then show ?thesis using k by simp
qed

lemma list_all_slice_nth:
  "list_all P (take (j - Suc i) (drop (Suc i) ls)) \<Longrightarrow> j \<le> length ls \<Longrightarrow> i < k \<Longrightarrow> k < j \<Longrightarrow>
   P (ls ! k)"
proof -
  assume a: "list_all P (take (j - Suc i) (drop (Suc i) ls))" and j: "j \<le> length ls"
    and ik: "i < k" and kj: "k < j"
  have "k - Suc i < length (take (j - Suc i) (drop (Suc i) ls))" using j ik kj by simp
  then have "P (take (j - Suc i) (drop (Suc i) ls) ! (k - Suc i))"
    using a by (simp add: list_all_length)
  moreover have "take (j - Suc i) (drop (Suc i) ls) ! (k - Suc i) = ls ! k"
    using j ik kj by simp
  ultimately show ?thesis by simp
qed

lemma doit_iff:
  "doit l \<longleftrightarrow> l = [] \<or> (hd l \<noteq> CHR '' '' \<and> hd l \<noteq> CHR 0x09 \<and> take 2 l \<noteq> ''/*'')
                \<or> take 6 l = ''/* END''"
  by (auto simp: doit_def)

section \<open>The comment builder\<close>















section \<open>The comment builder on every text\<close>




















section \<open>Lines and text\<close>

lemma lf_is_break: "is_break (CHR 0x0A)"
  by (simp add: is_break_def line_breaks_def)

lemma cr_is_break: "is_break (CHR 0x0D)"
  by (simp add: is_break_def line_breaks_def)

lemma split_nl_plain: "CHR 0x0A \<notin> set l \<Longrightarrow> split_nl l = [l]"
  by (induction l) auto

lemma split_nl_line: "CHR 0x0A \<notin> set l \<Longrightarrow> split_nl (l @ CHR 0x0A # r) = l # split_nl r"
  by (induction l) auto

lemma split_join_nl:
  "ls \<noteq> [] \<Longrightarrow> \<forall>l\<in>set ls. CHR 0x0A \<notin> set l \<Longrightarrow> split_nl (join_nl ls) = ls"
proof (induction ls rule: join_nl.induct)
  case 1
  then show ?case by simp
next
  case (2 l)
  then show ?case by (simp add: split_nl_plain)
next
  case (3 l l' ls)
  then show ?case by (simp add: split_nl_line)
qed

lemma join_nl_trailing:
  "ls \<noteq> [] \<Longrightarrow> join_nl (ls @ [[]]) = concat (map (\<lambda>l. l @ [CHR 0x0A]) ls)"
proof (induction ls rule: join_nl.induct)
  case 1
  then show ?case by simp
next
  case (2 l)
  then show ?case by simp
next
  case (3 l l' ls)
  then show ?case by simp
qed

lemma splitlines_from_line:
  "\<forall>c\<in>set l. \<not> is_break c \<Longrightarrow>
   splitlines_from cur (l @ CHR 0x0A # r) = (rev cur @ l) # splitlines_from [] r"
proof (induction l arbitrary: cur)
  case Nil
  then show ?case using lf_is_break by simp
next
  case (Cons c l)
  have nb: "\<not> is_break c" using Cons.prems by simp
  then have ncr: "c \<noteq> CHR 0x0D" using cr_is_break by auto
  have "splitlines_from cur ((c # l) @ CHR 0x0A # r) = splitlines_from (c # cur) (l @ CHR 0x0A # r)"
    using nb ncr by simp
  also have "\<dots> = (rev (c # cur) @ l) # splitlines_from [] r"
    using Cons by simp
  finally show ?case by simp
qed

lemma splitlines_terminated:
  "\<forall>l\<in>set ls. \<forall>c\<in>set l. \<not> is_break c \<Longrightarrow>
   splitlines (concat (map (\<lambda>l. l @ [CHR 0x0A]) ls)) = ls"
proof (induction ls)
  case Nil
  then show ?case by (simp add: splitlines_def)
next
  case (Cons l ls)
  have "splitlines_from [] (l @ CHR 0x0A # concat (map (\<lambda>l. l @ [CHR 0x0A]) ls))
          = (rev [] @ l) # splitlines_from [] (concat (map (\<lambda>l. l @ [CHR 0x0A]) ls))"
    by (rule splitlines_from_line) (use Cons.prems in auto)
  then show ?case using Cons by (simp add: splitlines_def)
qed

lemma splitlines_join_nl:
  "ls \<noteq> [] \<Longrightarrow> \<forall>l\<in>set ls. \<forall>c\<in>set l. \<not> is_break c \<Longrightarrow> splitlines (join_nl (ls @ [[]])) = ls"
  by (simp add: join_nl_trailing splitlines_terminated)

lemma set_del_slice: "set (del_slice ls s e) \<subseteq> set ls"
proof -
  have "set (take s ls) \<subseteq> set ls" by (rule set_take_subset)
  moreover have "set (drop (max s (Suc e)) ls) \<subseteq> set ls" by (rule set_drop_subset)
  ultimately show ?thesis by (auto simp: del_slice_def)
qed

lemma set_delete_spans: "set (delete_spans bone ls) \<subseteq> set ls"
proof (induction bone arbitrary: ls rule: rev_induct)
  case Nil
  then show ?case by (simp add: delete_spans_def)
next
  case (snoc x bone)
  obtain s e where x: "x = (s, e)" by (cases x)
  have "set (delete_spans bone (del_slice ls s e)) \<subseteq> set (del_slice ls s e)"
    by (rule snoc.IH)
  then show ?case using set_del_slice [of ls s e] unfolding x delete_spans_snoc by blast
qed

section \<open>An invariant of the scanning loop\<close>

lemma dict_set_snoc:
  "sorted_wrt (<) (map fst d) \<Longrightarrow> list_all (\<lambda>q. fst q \<le> s) d \<Longrightarrow>
   dict_set d s e = filter (\<lambda>q. fst q \<noteq> s) d @ [(s, e)]"
proof (induction d)
  case Nil
  then show ?case by simp
next
  case (Cons q d)
  obtain k v where q: "q = (k, v)" by (cases q)
  show ?case
  proof (cases "k = s")
    case True
    have "\<forall>x\<in>set d. s < fst x" using Cons.prems(1) q True by auto
    moreover have "\<forall>x\<in>set d. fst x \<le> s" using Cons.prems(2) by (auto simp: list_all_iff)
    ultimately have "d = []" by (cases d) fastforce+
    then show ?thesis using q True by simp
  next
    case False
    have "dict_set d s e = filter (\<lambda>q. fst q \<noteq> s) d @ [(s, e)]"
      using Cons by simp
    then show ?thesis using q False by simp
  qed
qed

lemma sorted_wrt_map_filter:
  "sorted_wrt R (map f xs) \<Longrightarrow> sorted_wrt R (map f (filter Q xs))"
  by (induction xs) auto

lemma spans_ok_close:
  assumes ok: "spans_ok ls k bone" and keys: "list_all (\<lambda>q. fst q \<le> s \<and> snd q < e) bone"
    and s: "s \<le> e" "e < k'" "\<not> plain_comment (ls ! s)" and kk: "k \<le> k'"
  shows "spans_ok ls k' (dict_set bone s e)"
    and "dict_set bone s e = filter (\<lambda>q. fst q \<noteq> s) bone @ [(s, e)]"
proof -
  let ?f = "filter (\<lambda>q. fst q \<noteq> s) bone"
  have sf: "sorted_wrt (<) (map fst bone)" and ss: "sorted_wrt (<) (map snd bone)"
    and el: "list_all (\<lambda>q. fst q \<le> snd q \<and> snd q < k \<and> \<not> plain_comment (ls ! fst q)) bone"
    using ok by (simp_all add: spans_ok_def)
  have kle: "list_all (\<lambda>q. fst q \<le> s) bone" using keys by (auto simp: list_all_iff)
  show eq: "dict_set bone s e = ?f @ [(s, e)]" by (rule dict_set_snoc [OF sf kle])
  have a: "sorted_wrt (<) (map fst (?f @ [(s, e)]))"
    using sorted_wrt_map_filter [OF sf, of "\<lambda>q. fst q \<noteq> s"] keys
    by (auto simp: sorted_wrt_append list_all_iff)
  have b: "sorted_wrt (<) (map snd (?f @ [(s, e)]))"
    using sorted_wrt_map_filter [OF ss, of "\<lambda>q. fst q \<noteq> s"] keys
    by (auto simp: sorted_wrt_append list_all_iff)
  have c: "list_all (\<lambda>q. fst q \<le> snd q \<and> snd q < k' \<and> \<not> plain_comment (ls ! fst q)) (?f @ [(s, e)])"
    using el s kk by (auto simp: list_all_iff)
  show "spans_ok ls k' (dict_set bone s e)"
    unfolding eq spans_ok_def using a b c by simp
qed

lemma coveredI: "q \<in> set bone \<Longrightarrow> fst q \<le> j \<Longrightarrow> j \<le> snd q \<Longrightarrow> covered bone j"
  unfolding covered_def list_ex_iff by blast

lemma coveredE: "covered bone j \<Longrightarrow> \<exists>q\<in>set bone. fst q \<le> j \<and> j \<le> snd q"
  unfolding covered_def list_ex_iff by blast

lemma covered_close:
  assumes "covered bone j \<or> s \<le> j" and "j \<le> e"
  shows "covered (filter (\<lambda>q. fst q \<noteq> s) bone @ [(s, e)]) j"
proof -
  let ?b = "filter (\<lambda>q. fst q \<noteq> s) bone @ [(s, e)]"
  have last: "covered ?b j" if "s \<le> j"
    by (rule coveredI [of "(s, e)"]) (use that assms(2) in auto)
  from assms(1) show ?thesis
  proof
    assume "covered bone j"
    then obtain q where q: "q \<in> set bone" "fst q \<le> j" "j \<le> snd q"
      using coveredE by blast
    show ?thesis
    proof (cases "fst q = s")
      case True
      then show ?thesis using q last by simp
    next
      case False
      then have "q \<in> set ?b" using q by simp
      then show ?thesis using q by (intro coveredI [of q]) auto
    qed
  next
    assume "s \<le> j"
    then show ?thesis by (rule last)
  qed
qed

lemma scan_inv_init: "scan_inv ms ls 0 scan_init"
  by (simp add: scan_inv_def spans_ok_def open_ok_def covers_def scan_init_def)

lemma scan_inv_step:
  assumes inv: "scan_inv ms ls k st" and ncm: "no_comment_match ms"
  shows "scan_inv ms ls (Suc k) (scan_step ms ls st k)"
proof -
  have sp: "spans_ok ls k (boneyard st)" and op: "open_ok ls k st" and cv: "covers ms ls k st"
    using inv by (simp_all add: scan_inv_def)
  have el: "list_all (\<lambda>q. fst q \<le> snd q \<and> snd q < k \<and> \<not> plain_comment (ls ! fst q)) (boneyard st)"
    using sp by (simp add: spans_ok_def)
  have sp': "spans_ok ls (Suc k) (boneyard st)"
    using sp by (auto simp: spans_ok_def list_all_iff)
  show ?thesis
  proof (cases "remove_starting_at_index st")
    case None
    then have en: "remove_ending_at_index st = None" using op by (simp add: open_ok_def)
    have cvb: "covered (boneyard st) j" if "j < k" "ms (ls ! j)" for j
      using cv that None by (auto simp: covers_def)
    show ?thesis
    proof (cases "ms (ls ! k)")
      case False
      have st': "scan_step ms ls st k = st" using None False by (rule scan_step_idle)
      have "covers ms ls (Suc k) st"
        unfolding covers_def using cvb False by (auto simp: less_Suc_eq)
      moreover have "open_ok ls (Suc k) st" using None en by (simp add: open_ok_def)
      ultimately show ?thesis unfolding st' scan_inv_def using sp' by simp
    next
      case True
      let ?s = "back_scan ls k"
      let ?st = "st\<lparr>remove_starting_at_index := Some ?s, remove_ending_at_index := Some k\<rparr>"
      have st': "scan_step ms ls st k = ?st" using None True by (rule scan_step_match)
      have sk: "?s \<le> k" by (rule back_scan_le)
      have np: "\<not> plain_comment (ls ! ?s)"
      proof (cases "?s = k")
        case True
        then show ?thesis using \<open>ms (ls ! k)\<close> plain_comment_no_match [OF ncm] by auto
      next
        case False
        then show ?thesis using back_scan_cases [of ls k] by auto
      qed
      have keys: "list_all (\<lambda>q. fst q \<le> ?s \<and> snd q < Suc k - 1) (boneyard st)"
      proof -
        have "fst q \<le> ?s \<and> snd q < k" if "q \<in> set (boneyard st)" for q
        proof -
          have q: "fst q \<le> snd q" "snd q < k" "\<not> plain_comment (ls ! fst q)"
            using el that by (auto simp: list_all_iff)
          then have "fst q < k" by simp
          then have "fst q \<le> ?s" using q(3) by (rule back_scan_ge)
          then show ?thesis using q by simp
        qed
        then show ?thesis by (auto simp: list_all_iff)
      qed
      have a: "spans_ok ls (Suc k) (boneyard ?st)" using sp' by simp
      have b: "open_ok ls (Suc k) ?st"
        using sk np keys by (simp add: open_ok_def)
      have c: "covers ms ls (Suc k) ?st"
        unfolding covers_def using cvb sk by (auto simp: less_Suc_eq)
      show ?thesis unfolding st' scan_inv_def using a b c by simp
    qed
  next
    case (Some s)
    have o: "remove_ending_at_index st = Some (k - 1)" "0 < k" "s \<le> k - 1"
      "\<not> plain_comment (ls ! s)"
      "list_all (\<lambda>q. fst q \<le> s \<and> snd q < k - 1) (boneyard st)"
      using op Some by (simp_all add: open_ok_def)
    have cvj: "covered (boneyard st) j \<or> s \<le> j" if "j < k" "ms (ls ! j)" for j
      using cv that Some by (auto simp: covers_def)
    show ?thesis
    proof (cases "doit (ls ! k)")
      case False
      let ?st = "st\<lparr>remove_ending_at_index := Some k\<rparr>"
      have st': "scan_step ms ls st k = ?st" using Some False by (rule scan_step_continue)
      have a: "spans_ok ls (Suc k) (boneyard ?st)" using sp' by simp
      have b: "open_ok ls (Suc k) ?st"
        using Some o by (auto simp: open_ok_def list_all_iff)
      have c: "covers ms ls (Suc k) ?st"
        unfolding covers_def using cvj Some o by (auto simp: less_Suc_eq)
      show ?thesis unfolding st' scan_inv_def using a b c by simp
    next
      case True
      let ?b = "dict_set (boneyard st) s k"
      let ?st = "st\<lparr>remove_starting_at_index := None, remove_ending_at_index := None,
                    boneyard := ?b\<rparr>"
      have st': "scan_step ms ls st k = ?st" using Some True by (rule scan_step_close)
      have keys: "list_all (\<lambda>q. fst q \<le> s \<and> snd q < k) (boneyard st)"
        using o(5) by (auto simp: list_all_iff)
      have sk: "s \<le> k" using o by simp
      note cl = spans_ok_close [OF sp keys sk _ o(4), of "Suc k"]
      have a: "spans_ok ls (Suc k) ?b" by (rule cl(1)) simp_all
      have eq: "?b = filter (\<lambda>q. fst q \<noteq> s) (boneyard st) @ [(s, k)]" by (rule cl(2)) simp_all
      have b: "open_ok ls (Suc k) ?st" by (simp add: open_ok_def)
      have c: "covers ms ls (Suc k) ?st"
        unfolding covers_def
      proof (intro allI impI)
        fix j assume j: "j < Suc k" and m: "ms (ls ! j)"
        have "covered (boneyard st) j \<or> s \<le> j"
        proof (cases "j < k")
          case True
          then show ?thesis using cvj m by blast
        next
          case False
          then show ?thesis using j sk by simp
        qed
        moreover have "j \<le> k" using j by simp
        ultimately have "covered ?b j" unfolding eq by (rule covered_close)
        then show "covered (boneyard ?st) j \<or>
                   (\<exists>s. remove_starting_at_index ?st = Some s \<and> s \<le> j)" by simp
      qed
      show ?thesis unfolding st' scan_inv_def using a b c by simp
    qed
  qed
qed

lemma scan_inv_range:
  "no_comment_match ms \<Longrightarrow> scan_inv ms ls k (scan_range ms ls scan_init 0 k)"
proof (induction k)
  case 0
  then show ?case by (simp add: scan_range_same scan_inv_init)
next
  case (Suc k)
  then show ?case by (simp add: scan_range_Suc scan_inv_step)
qed

lemma scan_inv_loop: "no_comment_match ms \<Longrightarrow> scan_inv ms ls (length ls) (scan_loop ms ls)"
  unfolding scan_loop_range by (rule scan_inv_range)

section \<open>The recorded spans and their deletion\<close>

lemma covered_snoc: "covered (bone @ [q]) j \<longleftrightarrow> covered bone j \<or> (fst q \<le> j \<and> j \<le> snd q)"
  by (auto simp: covered_def list_ex_iff)

lemma delete_spans_uncovered:
  "sorted_wrt (<) (map snd bone) \<Longrightarrow> list_all (\<lambda>q. fst q \<le> snd q) bone \<Longrightarrow>
   x \<in> set (delete_spans bone ls) \<Longrightarrow> \<exists>j<length ls. ls ! j = x \<and> \<not> covered bone j"
proof (induction bone arbitrary: ls rule: rev_induct)
  case Nil
  then show ?case by (auto simp: delete_spans_Nil covered_def in_set_conv_nth)
next
  case (snoc q bone)
  obtain s e where q: "q = (s, e)" by (cases q)
  have se: "s \<le> e" using snoc.prems(2) q by simp
  have ends: "\<forall>p\<in>set bone. snd p < e"
    using snoc.prems(1) q by (auto simp: sorted_wrt_append)
  have sorted: "sorted_wrt (<) (map snd bone)"
    using snoc.prems(1) by (simp add: sorted_wrt_append)
  have wf: "list_all (\<lambda>q. fst q \<le> snd q) bone" using snoc.prems(2) by simp
  let ?cur = "take s ls @ drop (Suc e) ls"
  have cur: "del_slice ls s e = ?cur" using se by (simp add: del_slice_def max_def)
  have "x \<in> set (delete_spans bone ?cur)"
    using snoc.prems(3) unfolding q delete_spans_snoc cur .
  from snoc.IH [OF sorted wf this]
  obtain j' where j': "j' < length ?cur" "?cur ! j' = x" "\<not> covered bone j'" by blast
  show ?case
  proof (cases "j' < length (take s ls)")
    case True
    then have "ls ! j' = x" using j'(2) by (simp add: nth_append)
    moreover have "j' < s" and "j' < length ls" using True by simp_all
    ultimately show ?thesis using j'(3) unfolding q covered_snoc by auto
  next
    case False
    let ?d = "j' - length (take s ls)"
    have la: "j' < length (take s ls) + length (drop (Suc e) ls)"
      using j'(1) by (simp only: length_append)
    have lb: "length (take s ls) \<le> j'" using False by (simp only: not_less)
    have d: "?d < length (drop (Suc e) ls)" using la lb by linarith
    then have el: "Suc e + ?d < length ls" by simp
    then have sl: "s < length ls" using se by simp
    have "?cur ! j' = drop (Suc e) ls ! ?d" by (simp only: nth_append False if_False)
    also have "\<dots> = ls ! (Suc e + ?d)" using el by simp
    finally have x: "ls ! (Suc e + ?d) = x" using j'(2) by simp
    have "\<not> covered bone (Suc e + ?d)"
    proof
      assume "covered bone (Suc e + ?d)"
      then obtain p where p: "p \<in> set bone" "Suc e + ?d \<le> snd p" using coveredE by blast
      then show False using ends by fastforce
    qed
    then have "\<not> covered (bone @ [q]) (Suc e + ?d)" unfolding q covered_snoc by simp
    then show ?thesis using x el by blast
  qed
qed

lemma scan_spans_final:
  assumes ncm: "no_comment_match ms"
  shows "sorted_wrt (<) (map snd (scan_spans ms ls))"
    and "list_all (\<lambda>q. fst q \<le> snd q) (scan_spans ms ls)"
    and "j < length ls \<Longrightarrow> ms (ls ! j) \<Longrightarrow>
         covered (scan_spans ms ls) j \<or>
         remove_starting_at_index (scan_loop ms ls) = Some (length ls - 1)"
proof -
  let ?st = "scan_loop ms ls"
  let ?n = "length ls"
  have inv: "scan_inv ms ls ?n ?st" by (rule scan_inv_loop [OF ncm])
  then have sp: "spans_ok ls ?n (boneyard ?st)" and op: "open_ok ls ?n ?st"
    and cv: "covers ms ls ?n ?st"
    by (simp_all add: scan_inv_def)
  have ok: "spans_ok ls ?n (scan_spans ms ls)"
  proof (cases "remove_starting_at_index ?st")
    case None
    then show ?thesis using sp by (simp add: scan_spans_def scan_finish_def)
  next
    case (Some s)
    have o: "remove_ending_at_index ?st = Some (?n - 1)" "0 < ?n" "s \<le> ?n - 1"
      "\<not> plain_comment (ls ! s)"
      "list_all (\<lambda>q. fst q \<le> s \<and> snd q < ?n - 1) (boneyard ?st)"
      using op Some by (simp_all add: open_ok_def)
    show ?thesis
    proof (cases "s = ?n - 1")
      case True
      then show ?thesis using sp Some o by (simp add: scan_spans_def scan_finish_def)
    next
      case False
      have "spans_ok ls ?n (dict_set (boneyard ?st) s (?n - 1))"
        by (rule spans_ok_close(1) [OF sp o(5) o(3) _ o(4)]) (use o(2) in auto)
      then show ?thesis using Some o False by (simp add: scan_spans_def scan_finish_def)
    qed
  qed
  show "sorted_wrt (<) (map snd (scan_spans ms ls))" using ok by (simp add: spans_ok_def)
  show "list_all (\<lambda>q. fst q \<le> snd q) (scan_spans ms ls)"
    using ok by (auto simp: spans_ok_def list_all_iff)
  show "covered (scan_spans ms ls) j \<or> remove_starting_at_index ?st = Some (?n - 1)"
    if j: "j < ?n" and m: "ms (ls ! j)"
  proof (cases "remove_starting_at_index ?st")
    case None
    then have "covered (boneyard ?st) j" using cv j m by (auto simp: covers_def)
    then show ?thesis using None by (simp add: scan_spans_def scan_finish_def)
  next
    case (Some s)
    have o: "remove_ending_at_index ?st = Some (?n - 1)" "0 < ?n" "s \<le> ?n - 1"
      "\<not> plain_comment (ls ! s)"
      "list_all (\<lambda>q. fst q \<le> s \<and> snd q < ?n - 1) (boneyard ?st)"
      using op Some by (simp_all add: open_ok_def)
    have cj: "covered (boneyard ?st) j \<or> s \<le> j" using cv j m Some by (auto simp: covers_def)
    show ?thesis
    proof (cases "s = ?n - 1")
      case True
      then show ?thesis using Some by simp
    next
      case False
      have eq: "dict_set (boneyard ?st) s (?n - 1)
                  = filter (\<lambda>q. fst q \<noteq> s) (boneyard ?st) @ [(s, ?n - 1)]"
        by (rule spans_ok_close(2) [OF sp o(5) o(3) _ o(4)]) (use o(2) in auto)
      have "j \<le> ?n - 1" using j by simp
      with cj have "covered (dict_set (boneyard ?st) s (?n - 1)) j"
        unfolding eq by (rule covered_close)
      then show ?thesis using Some o False by (simp add: scan_spans_def scan_finish_def)
    qed
  qed
qed

lemma kept_lines_no_match:
  assumes ncm: "no_comment_match ms"
    and tr: "remove_starting_at_index (scan_loop ms ls) \<noteq> Some (length ls - 1)"
  shows "filter ms (delete_spans (scan_spans ms ls) ls) = []"
proof -
  have "\<not> ms x" if x: "x \<in> set (delete_spans (scan_spans ms ls) ls)" for x
  proof
    assume m: "ms x"
    obtain j where j: "j < length ls" "ls ! j = x" "\<not> covered (scan_spans ms ls) j"
      using delete_spans_uncovered [OF scan_spans_final(1,2) [OF ncm] x] by blast
    have "ms (ls ! j)" using m j by simp
    from scan_spans_final(3) [OF ncm j(1) this] show False using j(3) tr by simp
  qed
  then show ?thesis by (simp add: filter_empty_conv)
qed

lemma length_delete_spans: "length (delete_spans bone ls) \<le> length ls"
proof (induction bone arbitrary: ls rule: rev_induct)
  case Nil
  then show ?case by (simp add: delete_spans_Nil)
next
  case (snoc q bone)
  obtain s e where q: "q = (s, e)" by (cases q)
  have "length (delete_spans bone (del_slice ls s e)) \<le> length (del_slice ls s e)"
    by (rule snoc.IH)
  also have "\<dots> \<le> length ls" by (simp add: del_slice_def)
  finally show ?case unfolding q delete_spans_snoc .
qed

section \<open>The write-back guard and the span bookkeeping on concrete buffers\<close>

lemma write_back_always: "write_back_with ms content parmtext = Wrote (swap_text_with ms content parmtext)"
  by (simp add: write_back_with_def py_ne_def)

text \<open>
  C3 (write-back guard).  The write to the member is guarded by \<open>newtext != content\<close>, a
  comparison of the returned \<open>str\<close> with the \<open>list\<close> of lines, which is never equal.
  On the one-line member \<open>a\<close>, with nothing to add and no block for \<open>X\<close>, the editor
  returns the text \<open>a\<close>, the very text of the member, and the step still writes it.
\<close>

theorem write_back_writes_unchanged_text:
  "write_back_step [''a''] [] ''X'' = Some (Wrote ''a'') \<and> join_nl [''a''] = ''a''"
  by code_simp

text \<open>
  C10 (span bookkeeping).  On the seven-line buffer below the scan for \<open>A\<close> records the
  spans \<open>(1, 3)\<close> and \<open>(2, 5)\<close>, which overlap; deleting \<open>(2, 5)\<close> and then \<open>(1, 3)\<close> leaves
  the single line \<open>x\<close>: the line \<open>keep\<close> at index 6, which lies in no recorded span, is
  deleted as well.
\<close>

theorem overlapping_spans_delete_outside_line:
  "swap_spans
       [''x'', mount_line ''A'', ''  MOUNTPOINT(/a)'', ''/* END */'', mount_line ''A'', [], ''keep'']
       ''A'' = Some [(1, 3), (2, 5)]
   \<and> swap_text
       [''x'', mount_line ''A'', ''  MOUNTPOINT(/a)'', ''/* END */'', mount_line ''A'', [], ''keep'']
       [] ''A'' = Some ''x''"
  by code_simp

section \<open>The backward walk at the top of the buffer\<close>

text \<open>
  When every line above the matched directive line is a comment line that does not open
  with \<open>/* BEG\<close>, the backward walk finds no line to stop at and the start index stays at
  the index of the matched line.
\<close>

lemma back_scan_comments_to_top:
  assumes "re_compile_ms rid \<noteq> None" and "i < length ls" and "matches rid (ls ! i)"
    and "list_all plain_comment (take i ls)"
  shows "back_scan ls i = i \<and>
         scan_range (matches rid) ls scan_init 0 (Suc i) =
           \<lparr>remove_starting_at_index = Some i, remove_ending_at_index = Some i, boneyard = []\<rparr>"
proof -
  have pl: "plain_comment (ls ! k)" if "k < i" for k
    using assms(2,4) that list_all_take_nth [of plain_comment i ls k] by simp
  have bs: "back_scan ls i = i"
    by (rule back_scan_all_plain) (use pl in auto)
  have nm: "\<forall>k. 0 \<le> k \<and> k < i \<longrightarrow> \<not> matches rid (ls ! k)"
    using pl plain_comment_no_match [OF matches_no_comment [OF assms(1)]] by blast
  have "scan_range (matches rid) ls scan_init 0 i = scan_init"
    by (rule scan_range_idle) (use nm in \<open>auto simp: scan_init_def\<close>)
  then have "scan_range (matches rid) ls scan_init 0 (Suc i) =
      \<lparr>remove_starting_at_index = Some (back_scan ls i), remove_ending_at_index = Some i,
       boneyard = []\<rparr>"
    using assms(3) by (simp add: scan_range_Suc scan_step_match scan_init_def)
  then show ?thesis using bs by simp
qed

text \<open>
  C7 (backward walk at the start of the buffer).  In the first buffer three comment lines
  stand above the directive at index 3 and reach the top of the buffer.  The walk visits
  the indices 2 and 1, finds no line to stop at and ends; the start index stays 3, the
  recorded span is \<open>(3, 5)\<close>, and the edit keeps all three comment lines, line 0 among them.
  In the second buffer the same comment lines stand below an empty line; there the walk
  stops at the empty line (index 1), the span is \<open>(1, 6)\<close>, and the comment lines are
  deleted with the block.
\<close>

theorem comments_at_top_survive:
  "back_scan buf_comments_top 3 = 3 \<and>
   swap_spans buf_comments_top ''A'' = Some [(3, 5)] \<and>
   swap_text buf_comments_top [] ''A'' = Some (join_nl [''/* c1 */'', ''/* c2 */'', ''/* c3 */'']) \<and>
   back_scan buf_comments_below_blank 4 = 1 \<and>
   swap_spans buf_comments_below_blank ''A'' = Some [(1, 6)] \<and>
   swap_text buf_comments_below_blank [] ''A'' = Some ''x''"
  by code_simp

section \<open>The forward scan\<close>

text \<open>
  Let the loop reach a line \<open>i\<close> that matches the directive pattern while no span is open.
  The span stays open over every following line for which \<open>doit\<close> is false; the first line
  \<open>j\<close> for which \<open>doit\<close> holds closes it, and \<open>j\<close> is the end index recorded in \<open>boneyard\<close>.
  If no later line matches the pattern and the walk back from \<open>i\<close> finds the start \<open>s\<close>, the
  edit deletes the lines \<open>s\<close> to \<open>j\<close>, the closing line included.
\<close>

lemma forward_scan_deletes_closing_line:
  assumes "i < j" and "j < length ls"
    and "list_all (\<lambda>l. \<not> ms l) (take i ls)"
    and "ms (ls ! i)"
    and "list_all (\<lambda>l. \<not> doit l) (take (j - Suc i) (drop (Suc i) ls))"
    and "doit (ls ! j)"
    and "list_all (\<lambda>l. \<not> ms l) (drop (Suc j) ls)"
  shows "scan_spans ms ls = [(back_scan ls i, j)] \<and>
         swap_lines ms ls [] = take (back_scan ls i) ls @ drop (Suc j) ls"
proof -
  have pre: "\<forall>k. k < i \<longrightarrow> \<not> ms (ls ! k)"
    using assms(1,2,3) list_all_take_nth [of "\<lambda>l. \<not> ms l" i ls] by auto
  have body: "\<forall>k. i < k \<and> k < j \<longrightarrow> \<not> doit (ls ! k)"
    using assms(2,5) list_all_slice_nth [of "\<lambda>l. \<not> doit l" j i ls] by auto
  have post: "\<forall>k. j < k \<and> k < length ls \<longrightarrow> \<not> ms (ls ! k)"
  proof (intro allI impI)
    fix k assume k: "j < k \<and> k < length ls"
    then have "k - Suc j < length ls - Suc j" by arith
    then have "k - Suc j < length (drop (Suc j) ls)" by simp
    then have "\<not> ms (drop (Suc j) ls ! (k - Suc j))"
      using assms(7) by (simp add: list_all_length)
    moreover have "drop (Suc j) ls ! (k - Suc j) = ls ! k" using k by simp
    ultimately show "\<not> ms (ls ! k)" by simp
  qed
  have sp: "scan_spans ms ls = [(back_scan ls i, j)]"
    using scan_loop_single_block
            [where ms = ms and ls = ls and i = i and j = j,
             OF assms(1,2) pre assms(4) body assms(6) post]
    by (simp add: scan_spans_def scan_finish_def)
  have "back_scan ls i \<le> j" using back_scan_le [of ls i] assms(1) by simp
  then show ?thesis
    unfolding sp by (simp add: swap_lines_def sp delete_spans_single)
qed

text \<open>
  C5 (forward-scan block-end conditions).  A line that opens a new top-level statement ends
  the block but is recorded as the end of the span and deleted with it.  In the member
  written with one statement per line, removing \<open>A\<close> records the span \<open>(1, 2)\<close> and deletes
  the whole entry of \<open>B\<close> as well.  In the second buffer the statement \<open>NEXT STATEMENT\<close> that
  follows the block of \<open>A\<close> is deleted.
\<close>

theorem next_statement_deleted:
  "swap_spans buf_one_line ''A'' = Some [(1, 2)] \<and>
   swap_text buf_one_line [] ''A'' = Some (join_nl [''/* mounts */'', ''keep'']) \<and>
   swap_spans buf_next_stmt ''A'' = Some [(1, 3)] \<and>
   swap_text buf_next_stmt [] ''A'' = Some (join_nl [''x'', ''z''])"
  by code_simp

section \<open>Adjacent blocks\<close>




section \<open>Letter case in the directive pattern\<close>

lemma upper_char_dollar: "upper_char c = CHR ''$'' \<longleftrightarrow> c = CHR ''$''"
  by (auto simp: upper_char_def split: if_splits)

lemma upper_no_dollar: "CHR ''$'' \<notin> set rid \<Longrightarrow> CHR ''$'' \<notin> set (upper rid)"
proof
  assume n: "CHR ''$'' \<notin> set rid" and "CHR ''$'' \<in> set (upper rid)"
  then obtain x where x: "x \<in> set rid" "upper_char x = CHR ''$''"
    by (auto simp: upper_def)
  then have "x = CHR ''$''" by (simp add: upper_char_dollar)
  then show False using x(1) n by simp
qed

lemma compiled_line_matches:
  assumes c: "re_compile_ms rid = Some p" and d: "CHR ''$'' \<notin> set rid"
    and w1: "list_all is_space wsa" and w2: "wsb \<noteq> []" "list_all is_space wsb"
    and w3: "list_all is_space wsc" and w4: "list_all is_space wsd"
  shows "re_match p (wsa @ ''MOUNT'' @ wsb @ ''FILESYSTEM('' @ wsc @ [CHR 0x27] @ upper rid @
                     [CHR 0x27] @ wsd @ '')'' @ rest)"
proof -
  obtain idp where idp: "re_ident (upper rid) = Some idp"
    and p: "p = [SpaceStar] @ map Lit ''MOUNT'' @ [SpacePlus] @ map Lit ''FILESYSTEM('' @
                [SpaceStar, Lit (CHR 0x27)] @ idp @ [Lit (CHR 0x27), SpaceStar, Lit (CHR '')'')]"
    using c by (auto simp: re_compile_ms_def split: option.splits)
  have e1: "re_match [Lit (CHR '')'')] ('')'' @ rest)" by simp
  have e2: "re_match [SpaceStar, Lit (CHR '')'')] (wsd @ '')'' @ rest)"
    by (rule re_space_star [OF w4 e1])
  have e3: "re_match ([Lit (CHR 0x27)] @ [SpaceStar, Lit (CHR '')'')]) ([CHR 0x27] @ wsd @ '')'' @ rest)"
    using e2 by (simp del: re_match.simps(5))
  have e4: "re_match (idp @ [Lit (CHR 0x27)] @ [SpaceStar, Lit (CHR '')'')])
              (upper rid @ [CHR 0x27] @ wsd @ '')'' @ rest)"
    using e3 re_ident_self [OF idp upper_no_dollar [OF d]] by simp
  have e5: "re_match (Lit (CHR 0x27) # idp @ [Lit (CHR 0x27)] @ [SpaceStar, Lit (CHR '')'')])
              ([CHR 0x27] @ upper rid @ [CHR 0x27] @ wsd @ '')'' @ rest)"
    using e4 by (simp del: re_match.simps(5))
  have e6: "re_match (SpaceStar # Lit (CHR 0x27) # idp @ [Lit (CHR 0x27)] @ [SpaceStar, Lit (CHR '')'')])
              (wsc @ [CHR 0x27] @ upper rid @ [CHR 0x27] @ wsd @ '')'' @ rest)"
    by (rule re_space_star [OF w3 e5])
  have e7: "re_match (map Lit ''FILESYSTEM('' @
                SpaceStar # Lit (CHR 0x27) # idp @ [Lit (CHR 0x27)] @ [SpaceStar, Lit (CHR '')'')])
              (''FILESYSTEM('' @ wsc @ [CHR 0x27] @ upper rid @ [CHR 0x27] @ wsd @ '')'' @ rest)"
    using e6 by (simp only: re_lits)
  have e8: "re_match (SpacePlus # map Lit ''FILESYSTEM('' @
                SpaceStar # Lit (CHR 0x27) # idp @ [Lit (CHR 0x27)] @ [SpaceStar, Lit (CHR '')'')])
              (wsb @ ''FILESYSTEM('' @ wsc @ [CHR 0x27] @ upper rid @ [CHR 0x27] @ wsd @ '')'' @ rest)"
    by (rule re_space_plus [OF w2 e7])
  have e9: "re_match (map Lit ''MOUNT'' @ SpacePlus # map Lit ''FILESYSTEM('' @
                SpaceStar # Lit (CHR 0x27) # idp @ [Lit (CHR 0x27)] @ [SpaceStar, Lit (CHR '')'')])
              (''MOUNT'' @ wsb @ ''FILESYSTEM('' @ wsc @ [CHR 0x27] @ upper rid @ [CHR 0x27] @
               wsd @ '')'' @ rest)"
    using e8 by (simp only: re_lits)
  have e10: "re_match (SpaceStar # map Lit ''MOUNT'' @ SpacePlus # map Lit ''FILESYSTEM('' @
                SpaceStar # Lit (CHR 0x27) # idp @ [Lit (CHR 0x27)] @ [SpaceStar, Lit (CHR '')'')])
              (wsa @ ''MOUNT'' @ wsb @ ''FILESYSTEM('' @ wsc @ [CHR 0x27] @ upper rid @ [CHR 0x27] @
               wsd @ '')'' @ rest)"
    by (rule re_space_star [OF w1 e9])
  have "p = SpaceStar # map Lit ''MOUNT'' @ SpacePlus # map Lit ''FILESYSTEM('' @
                SpaceStar # Lit (CHR 0x27) # idp @ [Lit (CHR 0x27)] @ [SpaceStar, Lit (CHR '')'')]"
    unfolding p by simp
  then show ?thesis using e10 by simp
qed

lemma compiled_keyword:
  assumes c: "re_compile_ms rid = Some p" and m: "re_match p l"
  shows "\<exists>r. dropWhile is_space l = ''MOUNT'' @ r"
proof -
  obtain idp where
    p: "p = [SpaceStar] @ map Lit ''MOUNT'' @ [SpacePlus] @ map Lit ''FILESYSTEM('' @
                [SpaceStar, Lit (CHR 0x27)] @ idp @ [Lit (CHR 0x27), SpaceStar, Lit (CHR '')'')]"
    using c by (auto simp: re_compile_ms_def split: option.splits)
  have "p = SpaceStar # map Lit ''MOUNT'' @ (SpacePlus # map Lit ''FILESYSTEM('' @
                [SpaceStar, Lit (CHR 0x27)] @ idp @ [Lit (CHR 0x27), SpaceStar, Lit (CHR '')'')])"
    unfolding p by simp
  then have "re_match (SpaceStar # map Lit ''MOUNT'' @ (SpacePlus # map Lit ''FILESYSTEM('' @
                [SpaceStar, Lit (CHR 0x27)] @ idp @ [Lit (CHR 0x27), SpaceStar, Lit (CHR '')'')])) l"
    using m by simp
  then show ?thesis
    by (rule re_star_keyword [rotated 2]) (simp_all add: is_space_def space_chars_def)
qed

















section \<open>Word wrap of the comment builder\<close>






section \<open>Applying the editor twice\<close>

text \<open>
  One run of the module reads the member with \<open>splitlines()\<close>, calls \<open>swap_text\<close> and writes
  the returned text back, so a second application works on \<open>splitlines\<close> of the first
  result.  Let the text to add be a managed block for the resource (BEGIN comment, comment
  lines, a directive line that matches the pattern, continuation lines, END comment, each
  line followed by a newline), let no line hold a line-break character, and let the lines
  that the editor keeps from the buffer be at least one and contain no directive line for
  the resource.  Then the second application returns the same text as the first.
\<close>

lemma swap_text_twice_same:
  assumes "re_compile_ms rid \<noteq> None"
    and "block_ok (matches rid) bg cms mt conts en"
    and "adding = join_nl (block_lines bg cms mt conts en @ [[]])"
    and "list_all (list_all (\<lambda>c. \<not> is_break c)) (buffer @ block_lines bg cms mt conts en)"
    and "swap_lines (matches rid) buffer [] \<noteq> []"
    and "list_all (\<lambda>l. \<not> matches rid l) (swap_lines (matches rid) buffer [])"
  shows "swap_text buffer adding rid =
           Some (join_nl (swap_lines (matches rid) buffer [] @ block_lines bg cms mt conts en @ [[]])) \<and>
         swap_text
           (splitlines (join_nl (swap_lines (matches rid) buffer [] @
                                 block_lines bg cms mt conts en @ [[]])))
           adding rid =
           Some (join_nl (swap_lines (matches rid) buffer [] @ block_lines bg cms mt conts en @ [[]]))"
proof -
  let ?ms = "matches rid"
  let ?blk = "block_lines bg cms mt conts en"
  let ?kept = "swap_lines ?ms buffer []"
  have kept: "?kept = delete_spans (scan_spans ?ms buffer) buffer"
    by (simp add: swap_lines_def)
  have blk_ne: "?blk \<noteq> []" by (simp add: block_lines_def)
  have nb_buf: "\<forall>l\<in>set buffer. \<forall>c\<in>set l. \<not> is_break c"
    and nb_blk: "\<forall>l\<in>set ?blk. \<forall>c\<in>set l. \<not> is_break c"
    using assms(4) by (auto simp: list_all_iff)
  have nb_kept: "\<forall>l\<in>set ?kept. \<forall>c\<in>set l. \<not> is_break c"
    using nb_buf set_delete_spans [of "scan_spans ?ms buffer" buffer] unfolding kept by blast
  have "\<forall>l\<in>set (?blk @ [[]]). CHR 0x0A \<notin> set l"
    using nb_blk lf_is_break by auto
  then have split: "split_nl adding = ?blk @ [[]]"
    unfolding assms(3) by (intro split_join_nl) simp_all
  have "adding = concat (map (\<lambda>l. l @ [CHR 0x0A]) ?blk)"
    unfolding assms(3) by (rule join_nl_trailing [OF blk_ne])
  then have add_ne: "adding \<noteq> []" using blk_ne by (cases ?blk) auto
  have first: "swap_lines ?ms buffer adding = ?kept @ ?blk @ [[]]"
    using add_ne split by (simp add: swap_lines_def)
  have "splitlines (join_nl ((?kept @ ?blk) @ [[]])) = ?kept @ ?blk"
    by (rule splitlines_join_nl) (use blk_ne nb_kept nb_blk in auto)
  then have reread: "splitlines (join_nl (?kept @ ?blk @ [[]])) = ?kept @ ?blk" by simp
  have "delete_spans (scan_spans ?ms (?kept @ ?blk @ [])) (?kept @ ?blk @ []) = ?kept @ []"
    by (rule block_delete [OF assms(2) matches_no_comment [OF assms(1)] assms(5,6)]) simp
  then have del: "delete_spans (scan_spans ?ms (?kept @ ?blk)) (?kept @ ?blk) = ?kept" by simp
  have second: "swap_lines ?ms (?kept @ ?blk) adding = ?kept @ ?blk @ [[]]"
    using add_ne split del by (simp add: swap_lines_def)
  show ?thesis
    unfolding reread
    by (simp only: swap_text_compiled [OF assms(1)] swap_text_with_def first second simp_thms)
qed

text \<open>
  C1 (idempotence).  On an empty member the block built for \<open>A\<close> is written as it is.  On
  the next run the member is that block: its BEGIN comment is line 0 and the directive is
  line 1, the walk \<open>range(index - 1, 0, -1)\<close> visits no line, the span starts at the
  directive, and the BEGIN comment is left behind.  The second application therefore
  returns the first result with a stray BEGIN comment in front of it.
\<close>

theorem rerun_on_block_at_top_leaves_begin:
  "swap_text [] gen_block_A ''A'' = Some gen_block_A \<and>
   splitlines gen_block_A = gen_block_lines \<and>
   swap_spans gen_block_lines ''A'' = Some [(1, 9)] \<and>
   swap_text (splitlines gen_block_A) gen_block_A ''A'' = Some (gen_begin @ [CHR 0x0A] @ gen_block_A)"
  by code_simp

section \<open>A span still open at the end of the buffer\<close>

text \<open>
  C6, as the code has it.  When the loop ends with a span open from index \<open>s\<close>, the end
  index is the last index of the buffer.  If the span covers more than one line
  (\<open>s\<close> is not the last index) it is recorded from \<open>s\<close> to the last index, and every line
  from \<open>s\<close> on is deleted: the kept lines are what the other recorded spans leave of the
  first \<open>s\<close> lines.  If the open span is the matched directive line alone, at the last
  index, nothing is recorded for it.
\<close>

theorem trailing_open_span:
  assumes "re_compile_ms rid \<noteq> None"
    and "remove_starting_at_index (scan_loop (matches rid) buffer) = Some s"
  shows "buffer \<noteq> [] \<and> s \<le> length buffer - 1 \<and>
         remove_ending_at_index (scan_loop (matches rid) buffer) = Some (length buffer - 1) \<and>
         (s \<noteq> length buffer - 1 \<longrightarrow>
            swap_spans buffer rid =
              Some (dict_set (boneyard (scan_loop (matches rid) buffer)) s (length buffer - 1)) \<and>
            swap_lines (matches rid) buffer [] =
              delete_spans (filter (\<lambda>q. fst q \<noteq> s) (boneyard (scan_loop (matches rid) buffer)))
                (take s buffer)) \<and>
         (s = length buffer - 1 \<longrightarrow>
            swap_spans buffer rid = Some (boneyard (scan_loop (matches rid) buffer)))"
proof -
  let ?ms = "matches rid"
  let ?st = "scan_loop ?ms buffer"
  let ?n = "length buffer"
  note ncm = matches_no_comment [OF assms(1)]
  obtain p where p: "re_compile_ms rid = Some p" using assms(1) by blast
  have spans: "swap_spans buffer rid = Some (scan_spans ?ms buffer)"
    using p by (simp add: swap_spans_def matches_re)
  have inv: "scan_inv ?ms buffer ?n ?st" by (rule scan_inv_loop [OF ncm])
  then have sp: "spans_ok buffer ?n (boneyard ?st)" and op: "open_ok buffer ?n ?st"
    by (simp_all add: scan_inv_def)
  have o: "remove_ending_at_index ?st = Some (?n - 1)" "0 < ?n" "s \<le> ?n - 1"
    "\<not> plain_comment (buffer ! s)"
    "list_all (\<lambda>q. fst q \<le> s \<and> snd q < ?n - 1) (boneyard ?st)"
    using op assms(2) by (simp_all add: open_ok_def)
  have a: "buffer \<noteq> []" using o(2) by auto
  have b: "swap_spans buffer rid = Some (boneyard ?st)" if "s = ?n - 1"
    using that assms(2) o(1) spans by (simp add: scan_spans_def scan_finish_def)
  have c: "swap_spans buffer rid = Some (dict_set (boneyard ?st) s (?n - 1)) \<and>
           swap_lines ?ms buffer [] =
             delete_spans (filter (\<lambda>q. fst q \<noteq> s) (boneyard ?st)) (take s buffer)"
    if ne: "s \<noteq> ?n - 1"
  proof -
    have fin: "scan_spans ?ms buffer = dict_set (boneyard ?st) s (?n - 1)"
      using ne assms(2) o(1) by (simp add: scan_spans_def scan_finish_def)
    have eq: "dict_set (boneyard ?st) s (?n - 1)
                = filter (\<lambda>q. fst q \<noteq> s) (boneyard ?st) @ [(s, ?n - 1)]"
      by (rule spans_ok_close(2) [OF sp o(5) o(3) _ o(4)]) (use o(2) in auto)
    have "del_slice buffer s (?n - 1) = take s buffer"
      using o(2) by (simp add: del_slice_def)
    then have "delete_spans (scan_spans ?ms buffer) buffer
                 = delete_spans (filter (\<lambda>q. fst q \<noteq> s) (boneyard ?st)) (take s buffer)"
      unfolding fin eq delete_spans_snoc by simp
    then show ?thesis using spans fin by (simp add: swap_lines_def)
  qed
  from a o(1,3) b c show ?thesis by blast
qed

theorem trailing_open_span_witness:
  "remove_starting_at_index (scan_loop (matches ''A'') buf_open_tail) = Some 1 \<and>
   swap_spans buf_open_tail ''A'' =
     Some (dict_set (boneyard (scan_loop (matches ''A'') buf_open_tail)) 1 (length buf_open_tail - 1)) \<and>
   swap_lines (matches ''A'') buf_open_tail [] =
     delete_spans (filter (\<lambda>q. fst q \<noteq> 1) (boneyard (scan_loop (matches ''A'') buf_open_tail)))
       (take 1 buf_open_tail) \<and>
   remove_starting_at_index (scan_loop (matches ''A'') buf_bare_tail) = Some 1 \<and>
   swap_spans buf_bare_tail ''A'' = Some (boneyard (scan_loop (matches ''A'') buf_bare_tail))"
proof -
  have h1: "re_compile_ms ''A'' \<noteq> None" by code_simp
  have h2: "remove_starting_at_index (scan_loop (matches ''A'') buf_open_tail) = Some 1"
    by code_simp
  have h3: "(1::nat) \<noteq> length buf_open_tail - 1" by code_simp
  have h4: "remove_starting_at_index (scan_loop (matches ''A'') buf_bare_tail) = Some 1"
    by code_simp
  have h5: "(1::nat) = length buf_bare_tail - 1" by code_simp
  from trailing_open_span [OF h1 h2] trailing_open_span [OF h1 h4] h2 h3 h4 h5
  show ?thesis by blast
qed

text \<open>
  C6 as the claim states it fails: in the buffer \<open>x\<close>, \<open>MOUNT FILESYSTEM('A')\<close> the open span
  is the directive line alone, at the last index; no span is recorded and the edit returns
  the buffer unchanged.
\<close>

theorem trailing_open_span_counterexample:
  "swap_spans buf_bare_tail ''A'' = Some [] \<and>
   swap_text buf_bare_tail [] ''A'' = Some (join_nl buf_bare_tail)"
  by code_simp

section \<open>Directive lines after an edit\<close>

text \<open>
  C2, as the code has it.  Let the text to add hold exactly one line that matches the
  directive pattern for the identifier, and let the scan of the buffer not end with an open
  span made of the last line alone.  Then no line that the editor keeps from the buffer
  matches the pattern, and the lines of the result hold exactly one matching line, the one
  of the text added.
\<close>

theorem single_directive_after_edit:
  assumes "re_compile_ms rid \<noteq> None"
    and "adding \<noteq> []"
    and "length (filter (matches rid) (split_nl adding)) = 1"
    and "remove_starting_at_index (scan_loop (matches rid) buffer) \<noteq> Some (length buffer - 1)"
  shows "swap_text buffer adding rid = Some (join_nl (swap_lines (matches rid) buffer adding)) \<and>
         length (filter (matches rid) (swap_lines (matches rid) buffer adding)) = 1 \<and>
         filter (matches rid) (swap_lines (matches rid) buffer []) = []"
proof -
  let ?ms = "matches rid"
  have kept: "filter ?ms (delete_spans (scan_spans ?ms buffer) buffer) = []"
    by (rule kept_lines_no_match [OF matches_no_comment [OF assms(1)] assms(4)])
  have a: "swap_text buffer adding rid = Some (join_nl (swap_lines ?ms buffer adding))"
    by (simp add: swap_text_compiled [OF assms(1)] swap_text_with_def)
  have b: "length (filter ?ms (swap_lines ?ms buffer adding)) = 1"
    using kept assms(2,3) by (simp add: swap_lines_def)
  have c: "filter ?ms (swap_lines ?ms buffer []) = []"
    using kept by (simp add: swap_lines_def)
  from a b c show ?thesis by blast
qed

theorem single_directive_after_edit_witness:
  "length (filter (matches ''A'') (split_nl block_A_text)) = 1 \<and>
   swap_text buf_two_stale block_A_text ''A''
     = Some (join_nl (swap_lines (matches ''A'') buf_two_stale block_A_text)) \<and>
   length (filter (matches ''A'') (swap_lines (matches ''A'') buf_two_stale block_A_text)) = 1 \<and>
   filter (matches ''A'') (swap_lines (matches ''A'') buf_two_stale []) = []"
proof -
  have h1: "re_compile_ms ''A'' \<noteq> None" by code_simp
  have h2: "block_A_text \<noteq> []" by code_simp
  have h3: "length (filter (matches ''A'') (split_nl block_A_text)) = 1" by code_simp
  have h4: "remove_starting_at_index (scan_loop (matches ''A'') buf_two_stale)
              \<noteq> Some (length buf_two_stale - 1)" by code_simp
  from single_directive_after_edit [OF h1 h2 h3 h4] h3 show ?thesis by blast
qed

text \<open>
  C2 as the claim states it fails: in the buffer \<open>x\<close>, \<open>MOUNT FILESYSTEM('A')\<close> the bare
  directive on the last line is not removed, and after a block for \<open>A\<close> is added the result
  holds two lines that match the pattern.  With the text \<open>hello\<close>, which holds no directive,
  the result on the empty buffer holds none.
\<close>

theorem single_directive_counterexample:
  "length (filter (matches ''A'') (swap_lines (matches ''A'') buf_bare_tail block_A_text)) = 2 \<and>
   swap_text buf_bare_tail block_A_text ''A''
     = Some (join_nl (buf_bare_tail @ split_nl block_A_text)) \<and>
   length (filter (matches ''A'') (swap_lines (matches ''A'') [] ''hello'')) = 0"
  by code_simp

end
